theory Spec2Isabelle
  imports Complex_Main "HOL-Library.Word" "HOL-Library.Multiset"
begin

section \<open>Data model\<close>

text \<open>
  The monitor keeps all tick counters in \<open>unsigned long long\<close>: 64-bit words whose
  arithmetic wraps around.
\<close>

type_synonym u64 = "64 word"

text \<open>\<open>ProcessInfo\<close>: one sampled process. The name buffer holds 256 bytes.\<close>

record ProcessInfo =
  pid :: int
  name :: string
  utime :: u64
  stime :: u64
  total_time :: u64

text \<open>\<open>CPUStats\<close>: the eight counters of the aggregate \<open>cpu\<close> line and two derived sums.\<close>

record CPUStats =
  user :: u64
  nice :: u64
  system :: u64
  idle :: u64
  iowait :: u64
  irq :: u64
  softirq :: u64
  steal :: u64
  total :: u64
  active :: u64

text \<open>
  The host as the monitor sees it: whether the first allocation succeeds, whether
  a reallocation to a given capacity succeeds, the listing of \<open>/proc\<close> (\<open>None\<close> when
  \<open>opendir\<close> fails), and the contents of \<open>/proc/<pid>/comm\<close> and \<open>/proc/<pid>/stat\<close>
  (\<open>None\<close> when \<open>fopen\<close> fails: the process is gone or access is denied).
\<close>

record host =
  malloc_ok :: bool
  realloc_ok :: "nat \<Rightarrow> bool"
  proc_dir :: "string list option"
  comm_file :: "int \<Rightarrow> string option"
  stat_file :: "int \<Rightarrow> string option"

section \<open>The C library as the program uses it\<close>

text \<open>Character classes of the C locale.\<close>

definition isspace :: "char \<Rightarrow> bool" where
  "isspace c = (c = CHR '' '' \<or> c = CHR 0x09 \<or> c = CHR 0x0A \<or> c = CHR 0x0B
                \<or> c = CHR 0x0C \<or> c = CHR 0x0D)"

definition isdigit :: "char \<Rightarrow> bool" where
  "isdigit c = (let n = (of_char c :: nat) in 48 \<le> n \<and> n \<le> 57)"

definition skip_space :: "string \<Rightarrow> string" where
  "skip_space s = dropWhile isspace s"

definition digits_val :: "string \<Rightarrow> nat" where
  "digits_val ds = foldl (\<lambda>a c. 10 * a + (of_char c - 48)) 0 ds"

text \<open>
  The subject sequence of a decimal integer conversion: an optional sign, then digits.
  \<open>None\<close> is a matching failure (no digit). The result is the sign, the digits and the
  unread rest of the input.
\<close>

definition scan_sign :: "string \<Rightarrow> bool \<times> string" where
  "scan_sign s =
     (case s of
        [] \<Rightarrow> (False, [])
      | c # r \<Rightarrow> if c = CHR ''-'' then (True, r)
                 else if c = CHR ''+'' then (False, r)
                 else (False, s))"

definition scan_digits :: "bool \<Rightarrow> string \<Rightarrow> (bool \<times> string \<times> string) option" where
  "scan_digits neg t =
     (if takeWhile isdigit t = [] then None
      else Some (neg, takeWhile isdigit t, dropWhile isdigit t))"

definition scan_integer :: "string \<Rightarrow> (bool \<times> string \<times> string) option" where
  "scan_integer s = (case scan_sign s of (neg, t) \<Rightarrow> scan_digits neg t)"

text \<open>
  The value stored by \<open>%llu\<close>. A minus sign negates in the unsigned type. C leaves a
  value that does not fit undefined; the C libraries of Linux store \<open>ULLONG_MAX\<close>.
\<close>

definition store_llu :: "bool \<Rightarrow> nat \<Rightarrow> u64" where
  "store_llu neg n =
     (if n > 18446744073709551615 then - 1
      else if neg then - (of_nat n) else of_nat n)"

definition conv_llu :: "bool \<Rightarrow> string \<Rightarrow> u64" where
  "conv_llu neg ds = store_llu neg (digits_val ds)"

text \<open>
  The directives of the two format strings of the program: white space, the suppressed
  conversions \<open>%*s\<close>, \<open>%*c\<close>, \<open>%*d\<close>, \<open>%*u\<close>, and the assigning \<open>%llu\<close>.
\<close>

datatype directive = Space | Skip_s | Skip_c | Skip_d | Skip_u | Conv_llu

datatype scan_status = Complete | Input_failure | Matching_failure

text \<open>
  The conversions on input whose leading white space is already skipped. End of input
  is an input failure. The result is the unread rest and the value assigned, if any.
\<close>

definition match_string :: "string \<Rightarrow> scan_status + string \<times> u64 list" where
  "match_string t =
     (if t = [] then Inl Input_failure else Inr (dropWhile (\<lambda>c. \<not> isspace c) t, []))"

definition match_char :: "string \<Rightarrow> scan_status + string \<times> u64 list" where
  "match_char s = (case s of [] \<Rightarrow> Inl Input_failure | c # r \<Rightarrow> Inr (r, []))"

definition match_integer :: "bool \<Rightarrow> string \<Rightarrow> scan_status + string \<times> u64 list" where
  "match_integer assign t =
     (if t = [] then Inl Input_failure
      else (case scan_integer t of
              None \<Rightarrow> Inl Matching_failure
            | Some (neg, dg, r) \<Rightarrow> Inr (r, if assign then [conv_llu neg dg] else [])))"

text \<open>One directive. Every conversion but \<open>%c\<close> skips leading white space.\<close>

fun directive_step :: "directive \<Rightarrow> string \<Rightarrow> scan_status + string \<times> u64 list" where
  "directive_step Space s = Inr (skip_space s, [])"
| "directive_step Skip_s s = match_string (skip_space s)"
| "directive_step Skip_c s = match_char s"
| "directive_step Skip_d s = match_integer False (skip_space s)"
| "directive_step Skip_u s = match_integer False (skip_space s)"
| "directive_step Conv_llu s = match_integer True (skip_space s)"

text \<open>
  Running a format over the input: the scan stops at the first directive that fails. The
  values assigned so far are accumulated in order.
\<close>

fun run_format :: "directive list \<Rightarrow> string \<Rightarrow> u64 list \<Rightarrow> scan_status \<times> u64 list" where
  "run_format [] s acc = (Complete, acc)"
| "run_format (d # ds) s acc =
     (case directive_step d s of
        Inl st \<Rightarrow> (st, acc)
      | Inr (r, v) \<Rightarrow> run_format ds r (acc @ v))"

text \<open>
  \<open>fscanf\<close> returns the number of items assigned, or \<open>EOF\<close> (\<open>-1\<close>) when the input ends
  before anything was assigned. Both callers only compare the count with the number of
  \<open>%llu\<close> conversions, so every failed scan is below it.
\<close>

definition fscanf :: "directive list \<Rightarrow> string \<Rightarrow> int \<times> u64 list" where
  "fscanf fmt s =
     (case run_format fmt s [] of
        (st, vals) \<Rightarrow>
          (if st = Input_failure \<and> vals = [] then - 1 else int (length vals), vals))"

text \<open>
  \<open>fgets\<close> into a buffer of \<open>n\<close> bytes: at most \<open>n - 1\<close> characters, up to and including
  the first newline; \<open>None\<close> (a null pointer) when the file is already at its end.
\<close>

fun fgets_line :: "nat \<Rightarrow> string \<Rightarrow> string" where
  "fgets_line n [] = []"
| "fgets_line n (c # cs) =
     (if n = 0 then []
      else if c = CHR 0x0A then [c]
      else c # fgets_line (n - 1) cs)"

definition fgets :: "nat \<Rightarrow> string \<Rightarrow> string option" where
  "fgets n s = (if s = [] then None else Some (fgets_line (n - 1) s))"

text \<open>
  \<open>atoi\<close>: white space, an optional sign, digits; 0 when no digit is there. The names it
  is applied to are process identifiers, far below \<open>INT_MAX\<close>; larger values are not
  modelled.
\<close>

definition atoi :: "string \<Rightarrow> int" where
  "atoi s =
     (case scan_integer (skip_space s) of
        None \<Rightarrow> 0
      | Some (neg, ds, r) \<Rightarrow> if neg then - int (digits_val ds) else int (digits_val ds))"

section \<open>CPU sampling\<close>

text \<open>The format \<open>"%*s %llu %llu %llu %llu %llu %llu %llu %llu"\<close>.\<close>

definition cpu_format :: "directive list" where
  "cpu_format = [Skip_s, Space, Conv_llu, Space, Conv_llu, Space, Conv_llu, Space, Conv_llu,
                 Space, Conv_llu, Space, Conv_llu, Space, Conv_llu, Space, Conv_llu]"

text \<open>
  \<open>get_cpu_stats\<close>: the argument is the content of \<open>/proc/stat\<close>, \<open>None\<close> when it cannot
  be opened. The result \<open>None\<close> is the return value \<open>-1\<close>; fewer than eight assigned
  fields is a failure. With eight fields all eight counters were assigned.
\<close>

definition get_cpu_stats :: "string option \<Rightarrow> CPUStats option" where
  "get_cpu_stats fp =
     (case fp of
        None \<Rightarrow> None
      | Some txt \<Rightarrow>
          (case fscanf cpu_format txt of
             (nfields, vals) \<Rightarrow>
               if nfields < 8 then None
               else (case vals of
                       [u, n, s, i, w, q, sq, st] \<Rightarrow>
                         (let act = u + n + s + q + sq;
                              tot = act + i + w + st
                          in Some \<lparr>user = u, nice = n, system = s, idle = i, iowait = w,
                                   irq = q, softirq = sq, steal = st,
                                   total = tot, active = act\<rparr>)
                     | _ \<Rightarrow> None)))"

text \<open>The four percentages printed by \<open>cpu_usage\<close>: the values of its \<open>double\<close> variables.\<close>

record usage =
  usage_percent :: real
  idle_percent :: real
  iowait_percent :: real
  steal_percent :: real

text \<open>The divisor: \<open>total_delta\<close>, replaced by 1 when it is 0.\<close>

definition total_delta :: "CPUStats \<Rightarrow> CPUStats \<Rightarrow> u64" where
  "total_delta prev cur =
     (let d = total cur - total prev in if d = 0 then 1 else d)"

text \<open>
  Arithmetic in \<open>double\<close> rounds every result to the nearest double. In the normal range
  of doubles the rounded value is off by at most \<open>1 / 2 ^ 53\<close> of the exact one, and 0
  stays 0; the values of this computation are 0 or lie between \<open>1 / 2 ^ 64\<close> and
  \<open>2 ^ 71\<close>, inside that range. \<open>rounded x y\<close>: \<open>y\<close> can be the double that stands for the exact value \<open>x\<close>.
\<close>

definition rounded :: "real \<Rightarrow> real \<Rightarrow> bool" where
  "rounded x y = (\<bar>y - x\<bar> \<le> \<bar>x\<bar> / 2 ^ 53)"

text \<open>
  \<open>(double)delta / total_delta * 100.0\<close>: both integers are converted to \<open>double\<close>, then
  the quotient and the product are rounded. \<open>double_percent delta td p\<close>: the expression
  can evaluate to \<open>p\<close>.
\<close>

definition double_percent :: "u64 \<Rightarrow> u64 \<Rightarrow> real \<Rightarrow> bool" where
  "double_percent delta td p =
     (\<exists>a b q. rounded (real (unat delta)) a \<and> rounded (real (unat td)) b
        \<and> rounded (a / b) q \<and> rounded (q * 100) p)"

text \<open>The four percentages \<open>cpu_usage\<close> can compute from two samples.\<close>

definition percentages :: "CPUStats \<Rightarrow> CPUStats \<Rightarrow> usage \<Rightarrow> bool" where
  "percentages prev cur r =
     (let active_delta = active cur - active prev;
          idle_delta = idle cur - idle prev;
          iowait_delta = iowait cur - iowait prev;
          steal_delta = steal cur - steal prev;
          td = total_delta prev cur
      in double_percent active_delta td (usage_percent r)
         \<and> double_percent idle_delta td (idle_percent r)
         \<and> double_percent iowait_delta td (iowait_percent r)
         \<and> double_percent steal_delta td (steal_percent r))"

text \<open>
  \<open>cpu_usage\<close>: two samples, one second apart. \<open>cpu_usage fp1 fp2 r\<close>: on these two
  contents of \<open>/proc/stat\<close> the run can print \<open>r\<close>; \<open>None\<close> is the return without output
  when a sample fails.
\<close>

definition cpu_usage :: "string option \<Rightarrow> string option \<Rightarrow> usage option \<Rightarrow> bool" where
  "cpu_usage fp1 fp2 r =
     (case get_cpu_stats fp1 of
        None \<Rightarrow> r = None
      | Some prev \<Rightarrow>
          (case get_cpu_stats fp2 of
             None \<Rightarrow> r = None
           | Some cur \<Rightarrow> (case r of None \<Rightarrow> False | Some u \<Rightarrow> percentages prev cur u)))"

text \<open>
  For comparison: the same expression in exact arithmetic, and the factors by which
  four roundings can lower or raise a value that is not negative.
\<close>

definition exact_percent :: "u64 \<Rightarrow> u64 \<Rightarrow> real" where
  "exact_percent delta td = real (unat delta) / real (unat td) * 100"

definition round_low :: real where
  "round_low = (1 - 1 / 2 ^ 53) ^ 3 / (1 + 1 / 2 ^ 53)"

definition round_high :: real where
  "round_high = (1 + 1 / 2 ^ 53) ^ 3 / (1 - 1 / 2 ^ 53)"

text \<open>
  For the statements about the text of \<open>/proc/stat\<close>: a label is a non-empty token
  without white space; a field is non-empty white space followed by a non-empty string of
  digits whose decimal value fits 64 bits; \<open>field_text\<close> writes fields one after another.
\<close>

definition label_token :: "string \<Rightarrow> bool" where
  "label_token l = (l \<noteq> [] \<and> list_all (\<lambda>c. \<not> isspace c) l)"

definition numeric_field :: "string \<times> string \<Rightarrow> bool" where
  "numeric_field item =
     (case item of
        (sp, f) \<Rightarrow> sp \<noteq> [] \<and> list_all isspace sp \<and> f \<noteq> [] \<and> list_all isdigit f
                   \<and> digits_val f \<le> 18446744073709551615)"

definition field_value :: "string \<times> string \<Rightarrow> u64" where
  "field_value item = of_nat (digits_val (snd item))"

definition field_text :: "(string \<times> string) list \<Rightarrow> string" where
  "field_text items = concat (map (\<lambda>item. fst item @ snd item) items)"

text \<open>
  For the statements about two samples: every counter of the later sample is at least
  that of the earlier one, and the eight counters of a sample add up below \<open>2 ^ 64\<close>,
  so that the sums kept in the sample have not wrapped around.
\<close>

definition counters_le :: "CPUStats \<Rightarrow> CPUStats \<Rightarrow> bool" where
  "counters_le prev cur =
     (user prev \<le> user cur \<and> nice prev \<le> nice cur \<and> system prev \<le> system cur
      \<and> idle prev \<le> idle cur \<and> iowait prev \<le> iowait cur \<and> irq prev \<le> irq cur
      \<and> softirq prev \<le> softirq cur \<and> steal prev \<le> steal cur)"

definition counter_sum :: "CPUStats \<Rightarrow> nat" where
  "counter_sum s =
     unat (user s) + unat (nice s) + unat (system s) + unat (irq s) + unat (softirq s)
     + unat (idle s) + unat (iowait s) + unat (steal s)"

definition no_wrap :: "CPUStats \<Rightarrow> bool" where
  "no_wrap s = (counter_sum s < 2 ^ 64)"

section \<open>Process listing\<close>

text \<open>\<open>is_numeric\<close>: the empty name is refused, then every character must be a digit.\<close>

fun is_numeric_loop :: "string \<Rightarrow> bool" where
  "is_numeric_loop [] = True"
| "is_numeric_loop (c # cs) = (if \<not> isdigit c then False else is_numeric_loop cs)"

definition is_numeric :: "string \<Rightarrow> bool" where
  "is_numeric str = (if str = [] then False else is_numeric_loop str)"

text \<open>
  The format
  \<open>"%*d %*s %*c %*d %*d %*d %*d %*d %*u %*u %*u %*u %*u %llu %llu"\<close>
  of \<open>/proc/<pid>/stat\<close>.
\<close>

definition stat_format :: "directive list" where
  "stat_format = [Skip_d, Space, Skip_s, Space, Skip_c,
                  Space, Skip_d, Space, Skip_d, Space, Skip_d, Space, Skip_d, Space, Skip_d,
                  Space, Skip_u, Space, Skip_u, Space, Skip_u, Space, Skip_u, Space, Skip_u,
                  Space, Conv_llu, Space, Conv_llu]"

text \<open>
  The first block of \<open>read_process_info\<close>: the name starts as \<open>unknown\<close> and is replaced
  by the first line of the \<open>comm\<close> file, without its trailing newline, when that file can
  be opened and read. The argument is the content of the file, \<open>None\<close> when \<open>fopen\<close>
  fails.
\<close>

definition read_comm :: "string option \<Rightarrow> string" where
  "read_comm fp =
     (case fp of
        None \<Rightarrow> ''unknown''
      | Some txt \<Rightarrow>
          (case fgets 256 txt of
             None \<Rightarrow> ''unknown''
           | Some line \<Rightarrow>
               if length line > 0 \<and> last line = CHR 0x0A then butlast line else line))"

text \<open>
  \<open>read_process_info\<close>: \<open>None\<close> is the return value 0, \<open>Some\<close> the filled structure with
  the return value 1. A scan that assigned two fields assigned \<open>utime\<close> and \<open>stime\<close>.
\<close>

definition read_process_info :: "host \<Rightarrow> int \<Rightarrow> ProcessInfo option" where
  "read_process_info h p =
     (let nm = read_comm (comm_file h p)
      in case stat_file h p of
           None \<Rightarrow> None
         | Some txt \<Rightarrow>
             (case fscanf stat_format txt of
                (fields_read, vals) \<Rightarrow>
                  if fields_read \<noteq> 2 then None
                  else (case vals of
                          [ut, st] \<Rightarrow>
                            Some \<lparr>pid = p, name = nm, utime = ut, stime = st,
                                  total_time = ut + st\<rparr>
                        | _ \<Rightarrow> None)))"

definition compare_processes :: "ProcessInfo \<Rightarrow> ProcessInfo \<Rightarrow> int" where
  "compare_processes proc_a proc_b =
     (if total_time proc_b > total_time proc_a then 1
      else if total_time proc_b < total_time proc_a then - 1
      else 0)"

text \<open>
  What C promises of \<open>qsort\<close>: the array holds the same elements afterwards, in ascending
  order of the comparison function. The order of elements that compare equal is
  unspecified.
\<close>

definition qsort_post :: "ProcessInfo list \<Rightarrow> ProcessInfo list \<Rightarrow> bool" where
  "qsort_post base sorted_base =
     (mset sorted_base = mset base
      \<and> sorted_wrt (\<lambda>a b. compare_processes a b \<le> 0) sorted_base)"


text \<open>
  The \<open>readdir\<close> loop of \<open>top_processes\<close> over the remaining entries, with the samples
  stored so far (the first \<open>proc_count\<close> slots of the array) and the capacity. The
  result also tells whether the loop was left because \<open>realloc\<close> failed. The array grows
  before the read, whether or not the read succeeds. The two \<open>int\<close> counters are far from
  overflow on any process table and are natural numbers here.
\<close>

fun scan_loop ::
  "host \<Rightarrow> string list \<Rightarrow> ProcessInfo list \<Rightarrow> nat \<Rightarrow> ProcessInfo list \<times> nat \<times> bool" where
  "scan_loop h [] processes capacity = (processes, capacity, False)"
| "scan_loop h (d_name # rest) processes capacity =
     (if \<not> is_numeric d_name then scan_loop h rest processes capacity
      else
        let p = atoi d_name in
        if length processes \<ge> capacity then
          (if \<not> realloc_ok h (capacity * 2) then (processes, capacity * 2, True)
           else (case read_process_info h p of
                   Some info \<Rightarrow> scan_loop h rest (processes @ [info]) (capacity * 2)
                 | None \<Rightarrow> scan_loop h rest processes (capacity * 2)))
        else (case read_process_info h p of
                Some info \<Rightarrow> scan_loop h rest (processes @ [info]) capacity
              | None \<Rightarrow> scan_loop h rest processes capacity))"

text \<open>
  The ways \<open>top_processes\<close> ends: the two error returns, the empty table, and the table
  printed from the sorted array.
\<close>

datatype outcome = Alloc_error | Open_error | No_processes | Sorted "ProcessInfo list"

text \<open>
  \<open>top_processes h out\<close>: on host \<open>h\<close> the run can end as \<open>out\<close>. The sort is any one
  that keeps the promise of \<open>qsort\<close>.
\<close>

definition top_processes :: "host \<Rightarrow> outcome \<Rightarrow> bool" where
  "top_processes h out =
     (if \<not> malloc_ok h then out = Alloc_error
      else (case proc_dir h of
              None \<Rightarrow> out = Open_error
            | Some entries \<Rightarrow>
                (case scan_loop h entries [] 100 of
                   (processes, capacity, stopped) \<Rightarrow>
                     if length processes = 0 then out = No_processes
                     else (case out of
                             Sorted arr \<Rightarrow> qsort_post processes arr
                           | _ \<Rightarrow> False))))"

text \<open>The rows of the table: the first \<open>display_count\<close> elements of the sorted array.\<close>

definition display_count :: "nat \<Rightarrow> nat" where
  "display_count proc_count = (if proc_count < 5 then proc_count else 5)"

fun displayed :: "outcome \<Rightarrow> ProcessInfo list" where
  "displayed (Sorted arr) = take (display_count (length arr)) arr"
| "displayed Alloc_error = []"
| "displayed Open_error = []"
| "displayed No_processes = []"

text \<open>
  The array after the sort: its first \<open>proc_count\<close> slots hold the samples, and a slot
  beyond them holds no sample, only what \<open>malloc\<close> or an abandoned read left there. The
  printing loop reads slot \<open>i\<close> for every \<open>i\<close> below \<open>display_count\<close>.
\<close>

definition slot :: "ProcessInfo list \<Rightarrow> nat \<Rightarrow> ProcessInfo option" where
  "slot arr i = (if i < length arr then Some (arr ! i) else None)"

fun table_rows :: "outcome \<Rightarrow> ProcessInfo option list" where
  "table_rows (Sorted arr) = map (slot arr) [0..<display_count (length arr)]"
| "table_rows Alloc_error = []"
| "table_rows Open_error = []"
| "table_rows No_processes = []"

text \<open>
  Following the spec's words: the number of entries \<open>listTopProcesses(n)\<close> returns when
  \<open>m\<close> processes were read.
\<close>

definition limit_rows :: "nat \<Rightarrow> nat \<Rightarrow> nat" where
  "limit_rows n m = (if m < n then m else n)"

text \<open>
  For comparison with the loop: the samples of all entries of the listing that are
  numeric and whose read succeeds, in listing order.
\<close>

definition readable :: "host \<Rightarrow> string list \<Rightarrow> ProcessInfo list" where
  "readable h entries =
     List.map_filter (\<lambda>d_name. read_process_info h (atoi d_name)) (filter is_numeric entries)"

section \<open>Example hosts\<close>

text \<open>
  A small host: three processes and the \<open>self\<close> link. Process 2 is gone by the time its
  \<open>stat\<close> file is opened; only process 1 has a readable \<open>comm\<close> file.
\<close>

definition example_host :: host where
  "example_host =
     \<lparr>malloc_ok = True, realloc_ok = (\<lambda>capacity. True),
      proc_dir = Some [''1'', ''self'', ''2'', ''3''],
      comm_file = (\<lambda>p. if p = 1 then Some ''init\<newline>'' else None),
      stat_file = (\<lambda>p. if p = 2 then None
                         else Some ''1 (x) S 0 0 0 0 0 0 0 0 0 0 7 3 0 0'')\<rparr>"

text \<open>The same host when the first allocation fails.\<close>

definition no_memory_host :: host where
  "no_memory_host = example_host\<lparr>malloc_ok := False\<rparr>"


text \<open>Six processes with total ticks 50, 10, 30, 5, 90 and 1, in listing order.\<close>

definition ranking_host :: host where
  "ranking_host =
     \<lparr>malloc_ok = True, realloc_ok = (\<lambda>capacity. True),
      proc_dir = Some [''1'', ''2'', ''3'', ''4'', ''5'', ''6''],
      comm_file = (\<lambda>p. None),
      stat_file = (\<lambda>p. if p = 1 then Some ''1 (a) S 0 0 0 0 0 0 0 0 0 0 40 10''
                         else if p = 2 then Some ''2 (b) S 0 0 0 0 0 0 0 0 0 0 7 3''
                         else if p = 3 then Some ''3 (c) S 0 0 0 0 0 0 0 0 0 0 10 20''
                         else if p = 4 then Some ''4 (d) S 0 0 0 0 0 0 0 0 0 0 5 0''
                         else if p = 5 then Some ''5 (e) S 0 0 0 0 0 0 0 0 0 0 60 30''
                         else if p = 6 then Some ''6 (f) S 0 0 0 0 0 0 0 0 0 0 0 1''
                         else None)\<rparr>"

section \<open>Candidate identifiers\<close>

lemma digit_range: "48 \<le> (n::nat) \<Longrightarrow> n \<le> 57 \<Longrightarrow>
  n = 48 \<or> n = 49 \<or> n = 50 \<or> n = 51 \<or> n = 52 \<or> n = 53 \<or> n = 54 \<or> n = 55 \<or> n = 56 \<or> n = 57"
  by arith

lemma isdigit_iff: "isdigit c \<longleftrightarrow> c \<in> set ''0123456789''"
proof
  assume "isdigit c"
  then have "48 \<le> (of_char c :: nat)" "(of_char c :: nat) \<le> 57"
    by (simp_all add: isdigit_def Let_def)
  from digit_range [OF this]
  have "(of_char c :: nat) = of_char CHR ''0'' \<or> (of_char c :: nat) = of_char CHR ''1''
      \<or> (of_char c :: nat) = of_char CHR ''2'' \<or> (of_char c :: nat) = of_char CHR ''3''
      \<or> (of_char c :: nat) = of_char CHR ''4'' \<or> (of_char c :: nat) = of_char CHR ''5''
      \<or> (of_char c :: nat) = of_char CHR ''6'' \<or> (of_char c :: nat) = of_char CHR ''7''
      \<or> (of_char c :: nat) = of_char CHR ''8'' \<or> (of_char c :: nat) = of_char CHR ''9''"
    by simp
  then have "c = CHR ''0'' \<or> c = CHR ''1'' \<or> c = CHR ''2'' \<or> c = CHR ''3'' \<or> c = CHR ''4''
      \<or> c = CHR ''5'' \<or> c = CHR ''6'' \<or> c = CHR ''7'' \<or> c = CHR ''8'' \<or> c = CHR ''9''"
    by (simp only: of_char_eq_iff)
  then show "c \<in> set ''0123456789''"
    by auto
next
  assume "c \<in> set ''0123456789''"
  then show "isdigit c"
    by (auto simp: isdigit_def)
qed

lemma is_numeric_loop_iff: "is_numeric_loop s \<longleftrightarrow> set s \<subseteq> set ''0123456789''"
proof (induction s)
  case Nil
  show ?case by simp
next
  case (Cons c cs)
  have "is_numeric_loop (c # cs) \<longleftrightarrow> isdigit c \<and> is_numeric_loop cs"
    by simp
  also have "\<dots> \<longleftrightarrow> c \<in> set ''0123456789'' \<and> set cs \<subseteq> set ''0123456789''"
    by (simp only: isdigit_iff Cons.IH)
  also have "\<dots> \<longleftrightarrow> set (c # cs) \<subseteq> set ''0123456789''"
    by (simp only: list.set insert_subset)
  finally show ?case .
qed

lemma scan_loop_filter:
  "scan_loop h (filter is_numeric entries) ps cap = scan_loop h entries ps cap"
  by (induction entries arbitrary: ps cap) (simp_all add: Let_def cong: option.case_cong)

section \<open>The enumeration loop\<close>

lemma readable_Nil: "readable h [] = []"
  by (simp add: readable_def map_filter_simps)

lemma readable_Cons:
  "readable h (d # rest) =
     (if is_numeric d then
        (case read_process_info h (atoi d) of
           None \<Rightarrow> readable h rest
         | Some info \<Rightarrow> info # readable h rest)
      else readable h rest)"
  unfolding readable_def by (simp add: map_filter_simps split: option.split)

lemma readable_append: "readable h (xs @ ys) = readable h xs @ readable h ys"
  by (simp add: readable_def map_filter_def)

lemma scan_loop_append:
  "scan_loop h (xs @ ys) ps cap =
     (case scan_loop h xs ps cap of
        (ps', cap', stopped) \<Rightarrow>
          if stopped then (ps', cap', True) else scan_loop h ys ps' cap')"
proof (induction xs arbitrary: ps cap)
  case Nil
  show ?case by simp
next
  case (Cons d rest)
  show ?case
    by (simp add: Cons.IH Let_def split: option.split)
qed

lemma scan_loop_complete:
  "scan_loop h es ps cap = (ps', cap', False) \<Longrightarrow> ps' = ps @ readable h es"
proof (induction es arbitrary: ps cap)
  case Nil
  then show ?case by (simp add: readable_Nil)
next
  case (Cons d rest)
  show ?case
  proof (cases "is_numeric d")
    case False
    then show ?thesis using Cons by (simp add: readable_Cons)
  next
    case True
    define cap2 where "cap2 = (if cap \<le> length ps then cap * 2 else cap)"
    define ps2 where
      "ps2 = (case read_process_info h (atoi d) of None \<Rightarrow> ps | Some info \<Rightarrow> ps @ [info])"
    have "cap \<le> length ps \<longrightarrow> realloc_ok h (cap * 2)"
      using Cons.prems True by (auto split: if_splits)
    then have "scan_loop h (d # rest) ps cap = scan_loop h rest ps2 cap2"
      using True by (auto simp: cap2_def ps2_def split: option.splits)
    then have "ps' = ps2 @ readable h rest"
      using Cons.IH [of ps2 cap2] Cons.prems by simp
    then show ?thesis
      using True by (simp add: ps2_def readable_Cons split: option.splits)
  qed
qed

lemma scan_loop_stopped_full:
  "scan_loop h es ps cap = (ps', cap', True) \<Longrightarrow> cap \<le> length ps'"
proof (induction es arbitrary: ps cap)
  case Nil
  then show ?case by simp
next
  case (Cons d rest)
  then show ?case
    by (fastforce simp: Let_def split: if_splits option.splits)
qed

lemma scan_loop_prefix:
  "\<exists>k. fst (scan_loop h es ps cap) = ps @ take k (readable h es)"
proof (induction es arbitrary: ps cap)
  case Nil
  show ?case by simp
next
  case (Cons d rest)
  show ?case
  proof (cases "is_numeric d")
    case False
    then show ?thesis using Cons.IH [of ps cap] by (simp add: readable_Cons)
  next
    case True
    note num = this
    show ?thesis
    proof (cases "cap \<le> length ps \<and> \<not> realloc_ok h (cap * 2)")
      case True
      then have "fst (scan_loop h (d # rest) ps cap) = ps @ take 0 (readable h (d # rest))"
        using num by simp
      then show ?thesis by blast
    next
      case False
      define cap2 where "cap2 = (if cap \<le> length ps then cap * 2 else cap)"
      show ?thesis
      proof (cases "read_process_info h (atoi d)")
        case None
        then have "scan_loop h (d # rest) ps cap = scan_loop h rest ps cap2"
          using num False by (auto simp: cap2_def)
        then show ?thesis using Cons.IH [of ps cap2] None num by (simp add: readable_Cons)
      next
        case (Some info)
        then have eq: "scan_loop h (d # rest) ps cap = scan_loop h rest (ps @ [info]) cap2"
          using num False by (auto simp: cap2_def)
        obtain k where "fst (scan_loop h rest (ps @ [info]) cap2) = (ps @ [info]) @ take k (readable h rest)"
          using Cons.IH [of "ps @ [info]" cap2] by blast
        then have "fst (scan_loop h (d # rest) ps cap) = ps @ take (Suc k) (readable h (d # rest))"
          using eq Some num by (simp add: readable_Cons)
        then show ?thesis by blast
      qed
    qed
  qed
qed

lemma scan_loop_capacity:
  "scan_loop h es ps cap = (ps', cap', False) \<Longrightarrow> length ps \<le> cap \<Longrightarrow> 0 < cap
     \<Longrightarrow> length ps' \<le> cap' \<and> 0 < cap'"
proof (induction es arbitrary: ps cap)
  case Nil
  then show ?case by simp
next
  case (Cons d rest)
  show ?case
  proof (cases "is_numeric d")
    case False
    then show ?thesis using Cons by simp
  next
    case True
    define cap2 where "cap2 = (if cap \<le> length ps then cap * 2 else cap)"
    define ps2 where "ps2 = (case read_process_info h (atoi d) of None \<Rightarrow> ps | Some info \<Rightarrow> ps @ [info])"
    have ok: "cap \<le> length ps \<longrightarrow> realloc_ok h (cap * 2)"
      using Cons.prems(1) True by (auto split: if_splits)
    then have "scan_loop h (d # rest) ps cap = scan_loop h rest ps2 cap2"
      using True by (auto simp: cap2_def ps2_def split: option.splits)
    moreover have "length ps2 \<le> cap2" "0 < cap2"
      using Cons.prems(2,3) by (auto simp: cap2_def ps2_def split: option.splits)
    ultimately show ?thesis using Cons.IH [of ps2 cap2] Cons.prems(1) by simp
  qed
qed

lemma scan_loop_grow:
  "cap \<le> length ps \<Longrightarrow> length ps < 2 * cap \<Longrightarrow> realloc_ok h (cap * 2)
     \<Longrightarrow> fst (scan_loop h es ps cap) = fst (scan_loop h es ps (cap * 2))"
proof (induction es)
  case Nil
  show ?case by simp
next
  case (Cons d rest)
  then show ?case by (simp add: Let_def split: option.split)
qed

lemma scan_loop_no_room:
  "cap \<le> length ps \<Longrightarrow> \<not> realloc_ok h (cap * 2) \<Longrightarrow> fst (scan_loop h es ps cap) = ps"
  by (induction es) simp_all

lemma scan_loop_skip_unreadable:
  assumes num: "is_numeric d" and fail: "read_process_info h (atoi d) = None"
  shows "fst (scan_loop h (pre @ d # post) [] 100) = fst (scan_loop h (pre @ post) [] 100)"
proof -
  obtain ps cap stopped where pre: "scan_loop h pre [] 100 = (ps, cap, stopped)"
    by (cases "scan_loop h pre [] 100") auto
  show ?thesis
  proof (cases stopped)
    case True
    then show ?thesis using pre by (simp add: scan_loop_append)
  next
    case False
    then have inv: "length ps \<le> cap" "0 < cap"
      using scan_loop_capacity [of h pre "[]" 100 ps cap] pre by simp_all
    have l: "scan_loop h (pre @ d # post) [] 100 = scan_loop h (d # post) ps cap"
      and r: "scan_loop h (pre @ post) [] 100 = scan_loop h post ps cap"
      using pre False by (simp_all add: scan_loop_append)
    show ?thesis
    proof (cases "cap \<le> length ps")
      case False
      then show ?thesis using l r num fail by simp
    next
      case True
      show ?thesis
      proof (cases "realloc_ok h (cap * 2)")
        case True
        have "fst (scan_loop h (d # post) ps cap) = fst (scan_loop h post ps (cap * 2))"
          using \<open>cap \<le> length ps\<close> True num fail by simp
        also have "\<dots> = fst (scan_loop h post ps cap)"
          using scan_loop_grow [of cap ps h post] \<open>cap \<le> length ps\<close> True inv by simp
        finally show ?thesis using l r by simp
      next
        case False
        have "fst (scan_loop h (d # post) ps cap) = ps"
          using \<open>cap \<le> length ps\<close> False num by simp
        also have "\<dots> = fst (scan_loop h post ps cap)"
          using scan_loop_no_room [of cap ps h post] \<open>cap \<le> length ps\<close> False by simp
        finally show ?thesis using l r by simp
      qed
    qed
  qed
qed

lemma fscanf_count: "fscanf fmt txt = (n, vals) \<Longrightarrow> 0 \<le> n \<Longrightarrow> n = int (length vals)"
  by (auto simp: fscanf_def split: prod.splits if_splits)

lemma read_process_info_Some:
  "read_process_info h p = Some info \<longleftrightarrow>
     (\<exists>txt ut st. stat_file h p = Some txt \<and> fscanf stat_format txt = (2, [ut, st])
        \<and> info = \<lparr>pid = p, name = read_comm (comm_file h p), utime = ut, stime = st,
                    total_time = ut + st\<rparr>)"
proof (cases "stat_file h p")
  case None
  then show ?thesis by (simp add: read_process_info_def)
next
  case (Some content)
  obtain n vals where sc: "fscanf stat_format content = (n, vals)"
    by (cases "fscanf stat_format content") auto
  show ?thesis
  proof (cases "n = 2")
    case False
    then show ?thesis using Some sc by (simp add: read_process_info_def)
  next
    case True
    then have "length vals = 2" using fscanf_count [OF sc] by simp
    then obtain ut st where "vals = [ut, st]"
      by (cases vals; cases "tl vals") auto
    then show ?thesis using Some sc True by (auto simp: read_process_info_def)
  qed
qed

lemma read_process_info_pid:
  assumes "read_process_info h p = Some info"
  shows "pid info = p"
proof -
  from assms obtain content ut st where
    "info = \<lparr>pid = p, name = read_comm (comm_file h p), utime = ut, stime = st,
             total_time = ut + st\<rparr>"
    unfolding read_process_info_Some by blast
  then show ?thesis by simp
qed

lemma readable_sound:
  "info \<in> set (readable h es) \<Longrightarrow> read_process_info h (pid info) = Some info"
proof (induction es)
  case Nil
  then show ?case by (simp add: readable_Nil)
next
  case (Cons d rest)
  show ?case
  proof (cases "is_numeric d")
    case False
    then show ?thesis using Cons by (simp add: readable_Cons)
  next
    case True
    show ?thesis
    proof (cases "read_process_info h (atoi d)")
      case None
      then show ?thesis using Cons True by (simp add: readable_Cons)
    next
      case (Some first)
      then have "info = first \<or> info \<in> set (readable h rest)"
        using Cons.prems True by (simp add: readable_Cons)
      then show ?thesis
      proof
        assume "info = first"
        then show ?thesis using Some read_process_info_pid [OF Some] by simp
      next
        assume "info \<in> set (readable h rest)"
        then show ?thesis by (rule Cons.IH)
      qed
    qed
  qed
qed

lemma scan_loop_subset: "set (fst (scan_loop h es [] cap)) \<subseteq> set (readable h es)"
proof -
  obtain k where "fst (scan_loop h es [] cap) = [] @ take k (readable h es)"
    using scan_loop_prefix [of h es "[]" cap] by blast
  then show ?thesis by (simp add: set_take_subset)
qed

lemma read_process_info_proc_dir [simp]:
  "read_process_info (h\<lparr>proc_dir := x\<rparr>) p = read_process_info h p"
  unfolding read_process_info_def by simp

lemma scan_loop_proc_dir [simp]:
  "scan_loop (h\<lparr>proc_dir := x\<rparr>) es ps cap = scan_loop h es ps cap"
  by (induction es arbitrary: ps cap) (simp_all add: Let_def cong: option.case_cong)

lemma top_processes_via_loop:
  "malloc_ok h \<Longrightarrow> proc_dir h = Some entries \<Longrightarrow>
     top_processes h out =
       (if fst (scan_loop h entries [] 100) = [] then out = No_processes
        else (case out of Sorted arr \<Rightarrow> qsort_post (fst (scan_loop h entries [] 100)) arr
              | _ \<Rightarrow> False))"
  by (cases "scan_loop h entries [] 100"; cases out) (simp_all add: top_processes_def)

lemma scan_loop_never_stops:
  "(\<forall>c. realloc_ok h c) \<Longrightarrow> snd (snd (scan_loop h es ps cap)) = False"
proof (induction es arbitrary: ps cap)
  case Nil
  show ?case by simp
next
  case (Cons d rest)
  then show ?case by (simp add: Let_def split: option.split)
qed

lemma scan_loop_all_readable:
  assumes "\<forall>c. realloc_ok h c"
  shows "scan_loop h es [] 100 = (readable h es, fst (snd (scan_loop h es [] 100)), False)"
proof -
  obtain ps cap stopped where loop: "scan_loop h es [] 100 = (ps, cap, stopped)"
    by (cases "scan_loop h es [] 100") auto
  have "stopped = False"
    using scan_loop_never_stops [OF assms, of es "[]" 100] loop by simp
  then show ?thesis
    using loop scan_loop_complete [of h es "[]" 100 ps cap] by simp
qed

lemma readable_skip:
  "is_numeric d \<Longrightarrow> read_process_info h (atoi d) = None
     \<Longrightarrow> readable h (pre @ d # post) = readable h pre @ readable h post"
  by (simp add: readable_append readable_Cons)

text \<open>
  Claim C8. A registry entry becomes a candidate process identifier exactly when its
  name is a non-empty string of decimal digits: \<open>self\<close> and \<open>1abc\<close> are refused,
  \<open>12345\<close> is accepted. The loop passes over a refused entry without a trace, and reads
  the record of an accepted one: when no reallocation fails, the samples are the
  successful reads of the digit-named entries, in listing order.
\<close>

theorem is_numeric_iff_digits:
  "(is_numeric str \<longleftrightarrow> str \<noteq> [] \<and> set str \<subseteq> set ''0123456789'')
   \<and> \<not> is_numeric ''self'' \<and> \<not> is_numeric ''1abc'' \<and> is_numeric ''12345''
   \<and> scan_loop h entries ps cap = scan_loop h (filter is_numeric entries) ps cap
   \<and> ((\<forall>c. realloc_ok h c) \<longrightarrow>
        fst (scan_loop h entries [] 100) =
          List.map_filter (\<lambda>d_name. read_process_info h (atoi d_name))
            (filter (\<lambda>d_name. d_name \<noteq> [] \<and> set d_name \<subseteq> set ''0123456789'') entries))
   \<and> (is_numeric d \<longrightarrow> length ps < cap \<longrightarrow>
        scan_loop h (d # rest) ps cap =
          scan_loop h rest
            (case read_process_info h (atoi d) of None \<Rightarrow> ps | Some info \<Rightarrow> ps @ [info]) cap)"
proof -
  have a: "is_numeric str \<longleftrightarrow> str \<noteq> [] \<and> set str \<subseteq> set ''0123456789''" for str
    unfolding is_numeric_def by (simp only: is_numeric_loop_iff split: if_split) blast
  have b: "\<not> is_numeric ''self''" "\<not> is_numeric ''1abc''" "is_numeric ''12345''"
    by (simp_all add: is_numeric_def isdigit_def)
  have c: "scan_loop h entries ps cap = scan_loop h (filter is_numeric entries) ps cap"
    by (simp only: scan_loop_filter)
  have "is_numeric = (\<lambda>d_name. d_name \<noteq> [] \<and> set d_name \<subseteq> set ''0123456789'')"
    using a by (intro ext) simp
  then have r: "readable h entries =
      List.map_filter (\<lambda>d_name. read_process_info h (atoi d_name))
        (filter (\<lambda>d_name. d_name \<noteq> [] \<and> set d_name \<subseteq> set ''0123456789'') entries)"
    by (simp add: readable_def)
  have e: "fst (scan_loop h entries [] 100) =
          List.map_filter (\<lambda>d_name. read_process_info h (atoi d_name))
            (filter (\<lambda>d_name. d_name \<noteq> [] \<and> set d_name \<subseteq> set ''0123456789'') entries)"
    if ok: "\<forall>c. realloc_ok h c"
    using scan_loop_all_readable [OF ok, of entries] r by (metis fst_conv)
  have f: "scan_loop h (d # rest) ps cap =
          scan_loop h rest
            (case read_process_info h (atoi d) of None \<Rightarrow> ps | Some info \<Rightarrow> ps @ [info]) cap"
    if "is_numeric d" "length ps < cap"
    using that by (simp split: option.split)
  show ?thesis using a [of str] b c e f by (intro conjI impI)
qed

text \<open>
  Claim C1. When the accounting record of a candidate cannot be read, only that entry is
  lost. The loop collects exactly what it collects without the entry in the listing, the
  identifier is not among the samples, and the run ends as it would without the entry.
  The enumeration goes on: when no reallocation fails, the samples are the readable entries
  before the failed one followed by the readable entries after it, and the loop runs to
  the end of the listing.
\<close>

theorem unreadable_entry_is_skipped:
  assumes "is_numeric d" and "read_process_info h (atoi d) = None"
  shows "fst (scan_loop h (pre @ d # post) [] 100) = fst (scan_loop h (pre @ post) [] 100)
       \<and> atoi d \<notin> pid ` set (fst (scan_loop h (pre @ d # post) [] 100))
       \<and> top_processes (h\<lparr>proc_dir := Some (pre @ d # post)\<rparr>) out
           = top_processes (h\<lparr>proc_dir := Some (pre @ post)\<rparr>) out
       \<and> ((\<forall>c. realloc_ok h c) \<longrightarrow>
            fst (scan_loop h (pre @ d # post) [] 100) = readable h pre @ readable h post
            \<and> \<not> snd (snd (scan_loop h (pre @ d # post) [] 100)))"
proof -
  have a: "fst (scan_loop h (pre @ d # post) [] 100) = fst (scan_loop h (pre @ post) [] 100)"
    using assms by (rule scan_loop_skip_unreadable)
  have b: "atoi d \<notin> pid ` set (fst (scan_loop h (pre @ d # post) [] 100))"
  proof
    assume "atoi d \<in> pid ` set (fst (scan_loop h (pre @ d # post) [] 100))"
    then obtain info where "info \<in> set (fst (scan_loop h (pre @ d # post) [] 100))"
      and "pid info = atoi d" by auto
    then have "read_process_info h (atoi d) = Some info"
      using scan_loop_subset [of h "pre @ d # post" 100] readable_sound [of info h] by auto
    then show False using assms(2) by simp
  qed
  have c: "top_processes (h\<lparr>proc_dir := Some (pre @ d # post)\<rparr>) out
           = top_processes (h\<lparr>proc_dir := Some (pre @ post)\<rparr>) out"
  proof (cases "malloc_ok h")
    case True
    then show ?thesis
      using top_processes_via_loop [of "h\<lparr>proc_dir := Some (pre @ d # post)\<rparr>" "pre @ d # post" out]
        top_processes_via_loop [of "h\<lparr>proc_dir := Some (pre @ post)\<rparr>" "pre @ post" out] a
      by (cases out) simp_all
  next
    case False
    then show ?thesis by (simp add: top_processes_def)
  qed
  have e: "fst (scan_loop h (pre @ d # post) [] 100) = readable h pre @ readable h post
            \<and> \<not> snd (snd (scan_loop h (pre @ d # post) [] 100))"
    if ok: "\<forall>c. realloc_ok h c"
    using scan_loop_all_readable [OF ok, of "pre @ d # post"] readable_skip [OF assms]
    by (metis fst_conv snd_conv)
  show ?thesis using a b c e by blast
qed

section \<open>Sorting and the table\<close>

lemma compare_processes_le:
  "compare_processes a b \<le> 0 \<longleftrightarrow> total_time b \<le> total_time a"
  by (auto simp: compare_processes_def)

lemma qsort_post_iff:
  "qsort_post ps arr \<longleftrightarrow>
     mset arr = mset ps \<and> sorted_wrt (\<lambda>a b. total_time b \<le> total_time a) arr"
  by (simp add: qsort_post_def compare_processes_le)

lemma qsort_post_exists: "\<exists>arr. qsort_post ps arr"
proof -
  have "sorted_wrt (\<lambda>a b. total_time a \<le> total_time b) (sort_key total_time ps)"
    using sorted_sort_key [of total_time ps] by (simp add: sorted_map)
  then have "sorted_wrt (\<lambda>a b. total_time b \<le> total_time a) (rev (sort_key total_time ps))"
    by (simp add: sorted_wrt_rev)
  then have "qsort_post ps (rev (sort_key total_time ps))"
    by (simp add: qsort_post_iff)
  then show ?thesis by blast
qed

lemma qsort_post_length: "qsort_post ps arr \<Longrightarrow> length arr = length ps"
  by (auto simp: qsort_post_def dest: mset_eq_length)

lemma qsort_post_set: "qsort_post ps arr \<Longrightarrow> set arr = set ps"
  by (auto simp: qsort_post_def dest: mset_eq_setD)


lemma collected_readable:
  assumes "scan_loop h es [] 100 = (ps, cap, stopped)"
  shows "(\<not> stopped \<longrightarrow> ps = readable h es)
       \<and> (stopped \<longrightarrow> 100 \<le> length ps \<and> length ps \<le> length (readable h es))"
proof (cases stopped)
  case False
  then show ?thesis using scan_loop_complete [of h es "[]" 100 ps cap] assms by simp
next
  case True
  then have "100 \<le> length ps"
    using scan_loop_stopped_full [of h es "[]" 100 ps cap] assms by simp
  moreover obtain k where "ps = take k (readable h es)"
    using scan_loop_prefix [of h es "[]" 100] assms by auto
  ultimately show ?thesis using True by simp
qed


lemma filled_slots: "k \<le> length arr \<Longrightarrow> map (slot arr) [0..<k] = map Some (take k arr)"
  by (rule nth_equalityI) (simp_all add: slot_def)

lemma table_rows_filled: "table_rows out = map Some (displayed out)"
proof (cases out)
  case (Sorted arr)
  have "display_count (length arr) \<le> length arr"
    by (simp add: display_count_def)
  then show ?thesis using Sorted by (simp add: filled_slots)
qed simp_all

text \<open>
  Claim C9, as amended: the limit is the constant 5. Every row of the table is a filled
  slot, so nothing is padded; the table has as many rows as samples were read when these
  are fewer than five, and five rows otherwise; every row is the sample of a process of
  the listing. The count is the same against all readable entries of the listing, since
  the loop only stops early with at least 100 samples.
\<close>

theorem displayed_count:
  assumes "malloc_ok h" and "proc_dir h = Some entries" and "top_processes h out"
  shows "table_rows out = map Some (displayed out)
       \<and> None \<notin> set (table_rows out)
       \<and> length (table_rows out) = limit_rows 5 (length (fst (scan_loop h entries [] 100)))
       \<and> length (table_rows out) = limit_rows 5 (length (readable h entries))
       \<and> set (displayed out) \<subseteq> set (readable h entries)"
proof -
  obtain ps cap stopped where loop: "scan_loop h entries [] 100 = (ps, cap, stopped)"
    by (cases "scan_loop h entries [] 100") auto
  note cr = collected_readable [OF loop]
  have sub: "set ps \<subseteq> set (readable h entries)"
    using scan_loop_subset [of h entries 100] loop by simp
  have rows: "length (table_rows out) = length (displayed out)"
    by (simp add: table_rows_filled)
  have filled: "None \<notin> set (table_rows out)"
    by (auto simp: table_rows_filled)
  show ?thesis
  proof (cases "ps = []")
    case True
    then have "out = No_processes"
      using assms loop by (simp add: top_processes_via_loop)
    moreover have "readable h entries = []"
      using cr True by (cases stopped) auto
    ultimately show ?thesis using loop True by (simp add: limit_rows_def)
  next
    case False
    then obtain arr where out: "out = Sorted arr" and q: "qsort_post ps arr"
      using assms loop by (cases out) (simp_all add: top_processes_via_loop)
    have len: "length arr = length ps" using q by (rule qsort_post_length)
    have a: "length (displayed out) = limit_rows 5 (length ps)"
      using out len by (simp add: display_count_def limit_rows_def)
    have b: "limit_rows 5 (length ps) = limit_rows 5 (length (readable h entries))"
      using cr by (cases stopped) (auto simp: limit_rows_def)
    have "set (displayed out) \<subseteq> set arr"
      using out by (simp add: set_take_subset)
    then have c: "set (displayed out) \<subseteq> set (readable h entries)"
      using qsort_post_set [OF q] sub by simp
    show ?thesis using rows filled a b c loop table_rows_filled [of out] by simp
  qed
qed





text \<open>
  Claim C5, as amended. A run ends in an error exactly when the first allocation fails or
  \<open>/proc\<close> cannot be opened; whatever happens to the reads of single processes, the
  outcome is no error.
\<close>

theorem hard_failure_causes:
  assumes "top_processes h out"
  shows "(out = Alloc_error \<longleftrightarrow> \<not> malloc_ok h)
       \<and> (out = Open_error \<longleftrightarrow> malloc_ok h \<and> proc_dir h = None)"
proof (cases "malloc_ok h")
  case False
  then show ?thesis using assms by (simp add: top_processes_def)
next
  case True
  show ?thesis
  proof (cases "proc_dir h")
    case None
    then show ?thesis using assms True by (simp add: top_processes_def)
  next
    case (Some entries)
    then show ?thesis
      using assms True top_processes_via_loop [OF True Some, of out]
      by (cases out) (simp_all split: if_splits)
  qed
qed


text \<open>Every run ends in one of the outcomes.\<close>

lemma top_processes_total: "\<exists>out. top_processes h out"
proof (cases "malloc_ok h")
  case False
  then have "top_processes h Alloc_error" by (simp add: top_processes_def)
  then show ?thesis by blast
next
  case True
  show ?thesis
  proof (cases "proc_dir h")
    case None
    then have "top_processes h Open_error" using True by (simp add: top_processes_def)
    then show ?thesis by blast
  next
    case (Some entries)
    show ?thesis
    proof (cases "fst (scan_loop h entries [] 100) = []")
      case True
      then have "top_processes h No_processes"
        using top_processes_via_loop [OF \<open>malloc_ok h\<close> Some] by simp
      then show ?thesis by blast
    next
      case False
      obtain arr where "qsort_post (fst (scan_loop h entries [] 100)) arr"
        using qsort_post_exists by blast
      then have "top_processes h (Sorted arr)"
        using top_processes_via_loop [OF \<open>malloc_ok h\<close> Some] False by simp
      then show ?thesis by blast
    qed
  qed
qed

section \<open>Runs on the example hosts\<close>

lemmas scan_eval =
  fscanf_def stat_format_def cpu_format_def skip_space_def isspace_def isdigit_def
  scan_integer_def scan_sign_def scan_digits_def conv_llu_def store_llu_def digits_val_def
  match_string_def match_char_def match_integer_def fgets_def read_comm_def
  is_numeric_def atoi_def

lemma example_stat: "fscanf stat_format ''1 (x) S 0 0 0 0 0 0 0 0 0 0 7 3 0 0'' = (2, [7, 3])"
  by (simp add: scan_eval)

lemma example_read_1:
  "read_process_info example_host 1 = Some \<lparr>pid = 1, name = ''init'', utime = 7, stime = 3, total_time = 10\<rparr>"
  by (simp add: read_process_info_def example_host_def example_stat read_comm_def fgets_def)

lemma example_read_2: "read_process_info example_host 2 = None"
  by (simp add: read_process_info_def example_host_def)

lemma example_read_3:
  "read_process_info example_host 3 = Some \<lparr>pid = 3, name = ''unknown'', utime = 7, stime = 3, total_time = 10\<rparr>"
  by (simp add: read_process_info_def example_host_def example_stat read_comm_def fgets_def)

lemma example_atoi: "atoi ''1'' = 1" "atoi ''2'' = 2" "atoi ''3'' = 3"
  by (simp_all add: scan_eval)

lemma example_numeric: "is_numeric ''1''" "is_numeric ''2''" "is_numeric ''3''" "\<not> is_numeric ''self''"
  by (simp_all add: scan_eval)

lemma example_loop:
  "scan_loop example_host [''1'', ''self'', ''2'', ''3''] [] 100 =
     ([\<lparr>pid = 1, name = ''init'', utime = 7, stime = 3, total_time = 10\<rparr>,
       \<lparr>pid = 3, name = ''unknown'', utime = 7, stime = 3, total_time = 10\<rparr>], 100, False)"
  by (simp add: example_atoi example_numeric example_read_1 example_read_2 example_read_3)

lemma example_realloc: "\<forall>c. realloc_ok example_host c"
  by (simp add: example_host_def)

theorem unreadable_entry_is_skipped_witness:
  "is_numeric ''2'' \<and> read_process_info example_host (atoi ''2'') = None
   \<and> (\<forall>c. realloc_ok example_host c)
   \<and> fst (scan_loop example_host ([''1'', ''self''] @ ''2'' # [''3'']) [] 100)
       = fst (scan_loop example_host ([''1'', ''self''] @ [''3'']) [] 100)
   \<and> atoi ''2'' \<notin> pid ` set (fst (scan_loop example_host ([''1'', ''self''] @ ''2'' # [''3'']) [] 100))
   \<and> fst (scan_loop example_host ([''1'', ''self''] @ ''2'' # [''3'']) [] 100)
       = readable example_host [''1'', ''self''] @ readable example_host [''3'']
   \<and> readable example_host [''1'', ''self''] @ readable example_host [''3'']
       = [\<lparr>pid = 1, name = ''init'', utime = 7, stime = 3, total_time = 10\<rparr>,
          \<lparr>pid = 3, name = ''unknown'', utime = 7, stime = 3, total_time = 10\<rparr>]"
proof -
  have n: "is_numeric ''2''" by (simp add: example_numeric)
  have r: "read_process_info example_host (atoi ''2'') = None"
    by (simp add: example_atoi example_read_2)
  note t = unreadable_entry_is_skipped [OF n r, of "[''1'', ''self'']" "[''3'']" No_processes]
  note a = t [THEN conjunct1]
  note b = t [THEN conjunct2, THEN conjunct1]
  note e = t [THEN conjunct2, THEN conjunct2, THEN conjunct2, THEN mp,
      OF example_realloc, THEN conjunct1]
  have v: "readable example_host [''1'', ''self''] @ readable example_host [''3'']
       = [\<lparr>pid = 1, name = ''init'', utime = 7, stime = 3, total_time = 10\<rparr>,
          \<lparr>pid = 3, name = ''unknown'', utime = 7, stime = 3, total_time = 10\<rparr>]"
    by (simp add: readable_Cons readable_Nil example_atoi example_numeric example_read_1
        example_read_3)
  show ?thesis
    using n r example_realloc a b e v by (intro conjI)
qed

lemma example_numeric_1abc: "\<not> is_numeric ''1abc''" "atoi ''1abc'' = 1"
  by (simp_all add: scan_eval)

theorem is_numeric_iff_digits_witness:
  "(\<forall>c. realloc_ok example_host c) \<and> is_numeric ''3'' \<and> length ([] :: ProcessInfo list) < 100
   \<and> fst (scan_loop example_host [''1'', ''1abc'', ''self'', ''3''] [] 100) =
        List.map_filter (\<lambda>d_name. read_process_info example_host (atoi d_name))
          (filter (\<lambda>d_name. d_name \<noteq> [] \<and> set d_name \<subseteq> set ''0123456789'')
             [''1'', ''1abc'', ''self'', ''3''])
   \<and> fst (scan_loop example_host [''1'', ''1abc'', ''self'', ''3''] [] 100) =
        [\<lparr>pid = 1, name = ''init'', utime = 7, stime = 3, total_time = 10\<rparr>,
         \<lparr>pid = 3, name = ''unknown'', utime = 7, stime = 3, total_time = 10\<rparr>]
   \<and> scan_loop example_host (''3'' # [''self'']) [] 100 =
        scan_loop example_host [''self'']
          (case read_process_info example_host (atoi ''3'') of
             None \<Rightarrow> [] | Some info \<Rightarrow> [] @ [info]) 100"
proof -
  have len: "length ([] :: ProcessInfo list) < 100" by simp
  note t = is_numeric_iff_digits [of "''12345''" example_host
      "[''1'', ''1abc'', ''self'', ''3'']" "[]" 100 "''3''" "[''self'']"]
  note e = t [THEN conjunct2, THEN conjunct2, THEN conjunct2, THEN conjunct2, THEN conjunct2,
      THEN conjunct1, THEN mp, OF example_realloc]
  note f = t [THEN conjunct2, THEN conjunct2, THEN conjunct2, THEN conjunct2, THEN conjunct2,
      THEN conjunct2, THEN mp, THEN mp, OF example_numeric(3) len]
  have v: "fst (scan_loop example_host [''1'', ''1abc'', ''self'', ''3''] [] 100) =
        [\<lparr>pid = 1, name = ''init'', utime = 7, stime = 3, total_time = 10\<rparr>,
         \<lparr>pid = 3, name = ''unknown'', utime = 7, stime = 3, total_time = 10\<rparr>]"
    by (simp add: example_atoi example_numeric example_numeric_1abc example_read_1
        example_read_3)
  show ?thesis
    using example_realloc example_numeric(3) len e v f by (intro conjI)
qed

lemma example_fields:
  "malloc_ok example_host" "proc_dir example_host = Some [''1'', ''self'', ''2'', ''3'']"
  by (simp_all add: example_host_def)

lemma example_collected:
  "fst (scan_loop example_host [''1'', ''self'', ''2'', ''3''] [] 100) =
     [\<lparr>pid = 1, name = ''init'', utime = 7, stime = 3, total_time = 10\<rparr>,
      \<lparr>pid = 3, name = ''unknown'', utime = 7, stime = 3, total_time = 10\<rparr>]"
  by (simp only: example_loop fst_conv)

lemma example_outcome:
  "top_processes example_host
     (Sorted [\<lparr>pid = 1, name = ''init'', utime = 7, stime = 3, total_time = 10\<rparr>,
              \<lparr>pid = 3, name = ''unknown'', utime = 7, stime = 3, total_time = 10\<rparr>])"
  unfolding top_processes_via_loop [OF example_fields] example_collected
  by (simp add: qsort_post_def compare_processes_def)

lemma no_memory_fields:
  "\<not> malloc_ok no_memory_host" "proc_dir no_memory_host = Some [''1'', ''self'', ''2'', ''3'']"
  by (simp_all add: no_memory_host_def example_host_def)

text \<open>
  Against claim C5 as stated: \<open>/proc\<close> can be opened, and the run still ends in an error,
  because the first allocation fails.
\<close>

theorem alloc_failure_counterexample:
  "top_processes no_memory_host Alloc_error
   \<and> proc_dir no_memory_host = Some [''1'', ''self'', ''2'', ''3'']"
  by (simp add: top_processes_def no_memory_fields)

theorem hard_failure_causes_witness:
  "top_processes example_host
     (Sorted [\<lparr>pid = 1, name = ''init'', utime = 7, stime = 3, total_time = 10\<rparr>,
              \<lparr>pid = 3, name = ''unknown'', utime = 7, stime = 3, total_time = 10\<rparr>])
   \<and> malloc_ok example_host \<and> proc_dir example_host \<noteq> None
   \<and> Sorted [\<lparr>pid = 1, name = ''init'', utime = 7, stime = 3, total_time = 10\<rparr>,
              \<lparr>pid = 3, name = ''unknown'', utime = 7, stime = 3, total_time = 10\<rparr>] \<noteq> Alloc_error
   \<and> Sorted [\<lparr>pid = 1, name = ''init'', utime = 7, stime = 3, total_time = 10\<rparr>,
              \<lparr>pid = 3, name = ''unknown'', utime = 7, stime = 3, total_time = 10\<rparr>] \<noteq> Open_error"
  using example_outcome example_fields hard_failure_causes [OF example_outcome]
  by simp






section \<open>Runs on the ranking host\<close>

lemma ranking_fields:
  "malloc_ok ranking_host"
  "proc_dir ranking_host = Some [''1'', ''2'', ''3'', ''4'', ''5'', ''6'']"
  by (simp_all add: ranking_host_def)

lemma ranking_atoi: "atoi ''4'' = 4" "atoi ''5'' = 5" "atoi ''6'' = 6"
  by (simp_all add: scan_eval)

lemma ranking_numeric: "is_numeric ''4''" "is_numeric ''5''" "is_numeric ''6''"
  by (simp_all add: scan_eval)

lemma ranking_stat:
  "fscanf stat_format ''1 (a) S 0 0 0 0 0 0 0 0 0 0 40 10'' = (2, [40, 10])"
  "fscanf stat_format ''2 (b) S 0 0 0 0 0 0 0 0 0 0 7 3'' = (2, [7, 3])"
  "fscanf stat_format ''3 (c) S 0 0 0 0 0 0 0 0 0 0 10 20'' = (2, [10, 20])"
  "fscanf stat_format ''4 (d) S 0 0 0 0 0 0 0 0 0 0 5 0'' = (2, [5, 0])"
  "fscanf stat_format ''5 (e) S 0 0 0 0 0 0 0 0 0 0 60 30'' = (2, [60, 30])"
  "fscanf stat_format ''6 (f) S 0 0 0 0 0 0 0 0 0 0 0 1'' = (2, [0, 1])"
  by (simp_all add: scan_eval)

lemma ranking_read:
  "read_process_info ranking_host 1 = Some \<lparr>pid = 1, name = ''unknown'', utime = 40, stime = 10, total_time = 50\<rparr>"
  "read_process_info ranking_host 2 = Some \<lparr>pid = 2, name = ''unknown'', utime = 7, stime = 3, total_time = 10\<rparr>"
  "read_process_info ranking_host 3 = Some \<lparr>pid = 3, name = ''unknown'', utime = 10, stime = 20, total_time = 30\<rparr>"
  "read_process_info ranking_host 4 = Some \<lparr>pid = 4, name = ''unknown'', utime = 5, stime = 0, total_time = 5\<rparr>"
  "read_process_info ranking_host 5 = Some \<lparr>pid = 5, name = ''unknown'', utime = 60, stime = 30, total_time = 90\<rparr>"
  "read_process_info ranking_host 6 = Some \<lparr>pid = 6, name = ''unknown'', utime = 0, stime = 1, total_time = 1\<rparr>"
  by (simp_all add: read_process_info_def ranking_host_def ranking_stat read_comm_def)

lemma ranking_collected:
  "fst (scan_loop ranking_host [''1'', ''2'', ''3'', ''4'', ''5'', ''6''] [] 100) =
     [\<lparr>pid = 1, name = ''unknown'', utime = 40, stime = 10, total_time = 50\<rparr>,
      \<lparr>pid = 2, name = ''unknown'', utime = 7, stime = 3, total_time = 10\<rparr>,
      \<lparr>pid = 3, name = ''unknown'', utime = 10, stime = 20, total_time = 30\<rparr>,
      \<lparr>pid = 4, name = ''unknown'', utime = 5, stime = 0, total_time = 5\<rparr>,
      \<lparr>pid = 5, name = ''unknown'', utime = 60, stime = 30, total_time = 90\<rparr>,
      \<lparr>pid = 6, name = ''unknown'', utime = 0, stime = 1, total_time = 1\<rparr>]"
  by (simp add: example_atoi example_numeric ranking_atoi ranking_numeric ranking_read)

lemma ranking_outcome:
  "top_processes ranking_host
     (Sorted [\<lparr>pid = 5, name = ''unknown'', utime = 60, stime = 30, total_time = 90\<rparr>,
              \<lparr>pid = 1, name = ''unknown'', utime = 40, stime = 10, total_time = 50\<rparr>,
              \<lparr>pid = 3, name = ''unknown'', utime = 10, stime = 20, total_time = 30\<rparr>,
              \<lparr>pid = 2, name = ''unknown'', utime = 7, stime = 3, total_time = 10\<rparr>,
              \<lparr>pid = 4, name = ''unknown'', utime = 5, stime = 0, total_time = 5\<rparr>,
              \<lparr>pid = 6, name = ''unknown'', utime = 0, stime = 1, total_time = 1\<rparr>])"
  unfolding top_processes_via_loop [OF ranking_fields] ranking_collected
  by (simp add: qsort_post_def compare_processes_def)



text \<open>
  Against claim C9 as stated, for a limit other than 5: on the ranking host six processes
  are read and the table has five rows, where a limit of 10 asks for six.
\<close>

theorem fixed_limit_counterexample:
  "top_processes ranking_host
     (Sorted [\<lparr>pid = 5, name = ''unknown'', utime = 60, stime = 30, total_time = 90\<rparr>,
              \<lparr>pid = 1, name = ''unknown'', utime = 40, stime = 10, total_time = 50\<rparr>,
              \<lparr>pid = 3, name = ''unknown'', utime = 10, stime = 20, total_time = 30\<rparr>,
              \<lparr>pid = 2, name = ''unknown'', utime = 7, stime = 3, total_time = 10\<rparr>,
              \<lparr>pid = 4, name = ''unknown'', utime = 5, stime = 0, total_time = 5\<rparr>,
              \<lparr>pid = 6, name = ''unknown'', utime = 0, stime = 1, total_time = 1\<rparr>])
   \<and> length (fst (scan_loop ranking_host [''1'', ''2'', ''3'', ''4'', ''5'', ''6''] [] 100)) = 6
   \<and> length (table_rows
     (Sorted [\<lparr>pid = 5, name = ''unknown'', utime = 60, stime = 30, total_time = 90\<rparr>,
              \<lparr>pid = 1, name = ''unknown'', utime = 40, stime = 10, total_time = 50\<rparr>,
              \<lparr>pid = 3, name = ''unknown'', utime = 10, stime = 20, total_time = 30\<rparr>,
              \<lparr>pid = 2, name = ''unknown'', utime = 7, stime = 3, total_time = 10\<rparr>,
              \<lparr>pid = 4, name = ''unknown'', utime = 5, stime = 0, total_time = 5\<rparr>,
              \<lparr>pid = 6, name = ''unknown'', utime = 0, stime = 1, total_time = 1\<rparr>])) = 5
   \<and> limit_rows 10
        (length (fst (scan_loop ranking_host [''1'', ''2'', ''3'', ''4'', ''5'', ''6''] [] 100))) = 6
   \<and> length (table_rows
     (Sorted [\<lparr>pid = 5, name = ''unknown'', utime = 60, stime = 30, total_time = 90\<rparr>,
              \<lparr>pid = 1, name = ''unknown'', utime = 40, stime = 10, total_time = 50\<rparr>,
              \<lparr>pid = 3, name = ''unknown'', utime = 10, stime = 20, total_time = 30\<rparr>,
              \<lparr>pid = 2, name = ''unknown'', utime = 7, stime = 3, total_time = 10\<rparr>,
              \<lparr>pid = 4, name = ''unknown'', utime = 5, stime = 0, total_time = 5\<rparr>,
              \<lparr>pid = 6, name = ''unknown'', utime = 0, stime = 1, total_time = 1\<rparr>]))
      \<noteq> limit_rows 10
          (length (fst (scan_loop ranking_host [''1'', ''2'', ''3'', ''4'', ''5'', ''6''] [] 100)))"
proof -
  have "length (fst (scan_loop ranking_host [''1'', ''2'', ''3'', ''4'', ''5'', ''6''] [] 100)) = 6"
    by (simp only: ranking_collected) simp
  then show ?thesis
    using ranking_outcome by (simp add: display_count_def limit_rows_def)
qed

theorem displayed_count_witness:
  "malloc_ok example_host \<and> proc_dir example_host = Some [''1'', ''self'', ''2'', ''3'']
   \<and> top_processes example_host
        (Sorted [\<lparr>pid = 1, name = ''init'', utime = 7, stime = 3, total_time = 10\<rparr>,
                 \<lparr>pid = 3, name = ''unknown'', utime = 7, stime = 3, total_time = 10\<rparr>])
   \<and> table_rows
        (Sorted [\<lparr>pid = 1, name = ''init'', utime = 7, stime = 3, total_time = 10\<rparr>,
                 \<lparr>pid = 3, name = ''unknown'', utime = 7, stime = 3, total_time = 10\<rparr>])
       = map Some (displayed
        (Sorted [\<lparr>pid = 1, name = ''init'', utime = 7, stime = 3, total_time = 10\<rparr>,
                 \<lparr>pid = 3, name = ''unknown'', utime = 7, stime = 3, total_time = 10\<rparr>]))
   \<and> None \<notin> set (table_rows
        (Sorted [\<lparr>pid = 1, name = ''init'', utime = 7, stime = 3, total_time = 10\<rparr>,
                 \<lparr>pid = 3, name = ''unknown'', utime = 7, stime = 3, total_time = 10\<rparr>]))
   \<and> length (table_rows
        (Sorted [\<lparr>pid = 1, name = ''init'', utime = 7, stime = 3, total_time = 10\<rparr>,
                 \<lparr>pid = 3, name = ''unknown'', utime = 7, stime = 3, total_time = 10\<rparr>]))
       = limit_rows 5 (length (fst (scan_loop example_host [''1'', ''self'', ''2'', ''3''] [] 100)))
   \<and> limit_rows 5 (length (fst (scan_loop example_host [''1'', ''self'', ''2'', ''3''] [] 100)))
       = 2
   \<and> malloc_ok ranking_host
   \<and> proc_dir ranking_host = Some [''1'', ''2'', ''3'', ''4'', ''5'', ''6'']
   \<and> top_processes ranking_host
     (Sorted [\<lparr>pid = 5, name = ''unknown'', utime = 60, stime = 30, total_time = 90\<rparr>,
              \<lparr>pid = 1, name = ''unknown'', utime = 40, stime = 10, total_time = 50\<rparr>,
              \<lparr>pid = 3, name = ''unknown'', utime = 10, stime = 20, total_time = 30\<rparr>,
              \<lparr>pid = 2, name = ''unknown'', utime = 7, stime = 3, total_time = 10\<rparr>,
              \<lparr>pid = 4, name = ''unknown'', utime = 5, stime = 0, total_time = 5\<rparr>,
              \<lparr>pid = 6, name = ''unknown'', utime = 0, stime = 1, total_time = 1\<rparr>])
   \<and> length (table_rows
     (Sorted [\<lparr>pid = 5, name = ''unknown'', utime = 60, stime = 30, total_time = 90\<rparr>,
              \<lparr>pid = 1, name = ''unknown'', utime = 40, stime = 10, total_time = 50\<rparr>,
              \<lparr>pid = 3, name = ''unknown'', utime = 10, stime = 20, total_time = 30\<rparr>,
              \<lparr>pid = 2, name = ''unknown'', utime = 7, stime = 3, total_time = 10\<rparr>,
              \<lparr>pid = 4, name = ''unknown'', utime = 5, stime = 0, total_time = 5\<rparr>,
              \<lparr>pid = 6, name = ''unknown'', utime = 0, stime = 1, total_time = 1\<rparr>]))
       = limit_rows 5
          (length (fst (scan_loop ranking_host [''1'', ''2'', ''3'', ''4'', ''5'', ''6''] [] 100)))
   \<and> limit_rows 5
        (length (fst (scan_loop ranking_host [''1'', ''2'', ''3'', ''4'', ''5'', ''6''] [] 100)))
       = 5"
proof -
  note t = displayed_count [OF example_fields example_outcome]
  note r = displayed_count [OF ranking_fields ranking_outcome]
  have two: "limit_rows 5
      (length (fst (scan_loop example_host [''1'', ''self'', ''2'', ''3''] [] 100))) = 2"
    by (simp only: example_collected) (simp add: limit_rows_def)
  have five: "limit_rows 5
      (length (fst (scan_loop ranking_host [''1'', ''2'', ''3'', ''4'', ''5'', ''6''] [] 100))) = 5"
    by (simp only: ranking_collected) (simp add: limit_rows_def)
  show ?thesis
    using example_fields example_outcome t [THEN conjunct1]
      t [THEN conjunct2, THEN conjunct1] t [THEN conjunct2, THEN conjunct2, THEN conjunct1] two
      ranking_fields ranking_outcome r [THEN conjunct2, THEN conjunct2, THEN conjunct1] five
    by (intro conjI)
qed

section \<open>Reading one process\<close>

lemma directive_step_values:
  "directive_step d s = Inr (r, v) \<Longrightarrow> length v \<le> (if d = Conv_llu then 1 else 0)"
  by (cases d)
    (auto simp: match_string_def match_char_def match_integer_def
      split: if_splits option.splits list.splits)

lemma run_format_values:
  "length (snd (run_format ds s acc)) \<le> length acc + length (filter (\<lambda>d. d = Conv_llu) ds)"
proof (induction ds arbitrary: s acc)
  case Nil
  show ?case by simp
next
  case (Cons d ds)
  show ?case
  proof (cases "directive_step d s")
    case (Inl st)
    then show ?thesis by simp
  next
    case (Inr rv)
    obtain r v where rv: "rv = (r, v)" by (cases rv)
    have "length v \<le> (if d = Conv_llu then 1 else 0)"
      using Inr rv directive_step_values by simp
    moreover have "length (snd (run_format ds r (acc @ v)))
        \<le> length (acc @ v) + length (filter (\<lambda>d. d = Conv_llu) ds)"
      by (rule Cons.IH)
    ultimately show ?thesis using Inr rv by (simp split: if_splits)
  qed
qed

lemma fscanf_stat_at_most_2: "fst (fscanf stat_format content) \<le> 2"
proof -
  obtain st vals where rf: "run_format stat_format content [] = (st, vals)"
    by (cases "run_format stat_format content []") auto
  have "length (snd (run_format stat_format content [])) \<le> 2"
    using run_format_values [of stat_format content "[]"] by (simp add: stat_format_def)
  then show ?thesis
    by (simp add: fscanf_def rf)
qed

lemma fgets_line_newline:
  "CHR 0x0A \<notin> set nm \<Longrightarrow> length nm < n \<Longrightarrow> fgets_line n (nm @ CHR 0x0A # rest) = nm @ [CHR 0x0A]"
proof (induction nm arbitrary: n)
  case Nil
  then show ?case by simp
next
  case (Cons c cs)
  then show ?case by (cases n) auto
qed

lemma read_comm_line:
  assumes "CHR 0x0A \<notin> set nm" and "length nm < 255"
  shows "read_comm (Some (nm @ [CHR 0x0A])) = nm"
proof -
  have "fgets_line 255 (nm @ [CHR 0x0A]) = nm @ [CHR 0x0A]"
    using assms by (rule fgets_line_newline)
  then show ?thesis by (simp add: read_comm_def fgets_def)
qed

text \<open>
  Claim C7. \<open>read_process_info\<close> fails exactly when the \<open>stat\<close> file cannot be opened or
  the scan assigns fewer than two fields. A \<open>comm\<close> file that cannot be opened leaves the
  name \<open>unknown\<close> in a successful read; a \<open>comm\<close> file holding a line gives that line
  without its newline.
\<close>

theorem read_process_info_failure:
  "(read_process_info h p = None \<longleftrightarrow>
      stat_file h p = None
      \<or> (\<exists>content. stat_file h p = Some content \<and> fst (fscanf stat_format content) < 2))
   \<and> (read_process_info h p = Some info \<longrightarrow> comm_file h p = None
        \<longrightarrow> name info = ''unknown'')
   \<and> (read_process_info h p = Some info \<longrightarrow> comm_file h p = Some (nm @ [CHR 0x0A])
        \<longrightarrow> CHR 0x0A \<notin> set nm \<longrightarrow> length nm < 255 \<longrightarrow> name info = nm)"
proof -
  have a: "read_process_info h p = None \<longleftrightarrow>
      stat_file h p = None
      \<or> (\<exists>content. stat_file h p = Some content \<and> fst (fscanf stat_format content) < 2)"
  proof (cases "stat_file h p")
    case None
    then show ?thesis by (simp add: read_process_info_def)
  next
    case (Some content)
    obtain n vals where sc: "fscanf stat_format content = (n, vals)"
      by (cases "fscanf stat_format content") auto
    have le: "n \<le> 2" using fscanf_stat_at_most_2 [of content] sc by simp
    show ?thesis
    proof (cases "n = 2")
      case False
      then show ?thesis using Some sc le by (simp add: read_process_info_def)
    next
      case True
      then have "length vals = 2" using fscanf_count [OF sc] by simp
      then obtain ut st where "vals = [ut, st]"
        by (cases vals; cases "tl vals") auto
      then show ?thesis using Some sc True by (simp add: read_process_info_def)
    qed
  qed
  have nm: "name info = read_comm (comm_file h p)" if r: "read_process_info h p = Some info"
  proof -
    obtain content ut st where
      "info = \<lparr>pid = p, name = read_comm (comm_file h p), utime = ut, stime = st,
               total_time = ut + st\<rparr>"
      using r unfolding read_process_info_Some by blast
    then show ?thesis by simp
  qed
  have b: "read_process_info h p = Some info \<longrightarrow> comm_file h p = None
        \<longrightarrow> name info = ''unknown''"
    using nm by (simp add: read_comm_def)
  have c: "read_process_info h p = Some info \<longrightarrow> comm_file h p = Some (nm @ [CHR 0x0A])
        \<longrightarrow> CHR 0x0A \<notin> set nm \<longrightarrow> length nm < 255 \<longrightarrow> name info = nm"
    using nm read_comm_line [of nm] by simp
  show ?thesis using a b c by (intro conjI)
qed

theorem read_process_info_failure_witness:
  "read_process_info example_host 3
      = Some \<lparr>pid = 3, name = ''unknown'', utime = 7, stime = 3, total_time = 10\<rparr>
   \<and> comm_file example_host 3 = None
   \<and> name \<lparr>pid = 3, name = ''unknown'', utime = 7, stime = 3, total_time = 10\<rparr> = ''unknown''
   \<and> read_process_info example_host 1
      = Some \<lparr>pid = 1, name = ''init'', utime = 7, stime = 3, total_time = 10\<rparr>
   \<and> comm_file example_host 1 = Some (''init'' @ [CHR 0x0A])
   \<and> CHR 0x0A \<notin> set ''init'' \<and> length ''init'' < 255
   \<and> name \<lparr>pid = 1, name = ''init'', utime = 7, stime = 3, total_time = 10\<rparr> = ''init''
   \<and> (read_process_info example_host 2 = None \<longleftrightarrow>
        stat_file example_host 2 = None
        \<or> (\<exists>content. stat_file example_host 2 = Some content
              \<and> fst (fscanf stat_format content) < 2))"
proof -
  have c3: "comm_file example_host 3 = None"
    and c1: "comm_file example_host 1 = Some (''init'' @ [CHR 0x0A])"
    by (simp_all add: example_host_def)
  have nl: "CHR 0x0A \<notin> set ''init''" and len: "length ''init'' < 255"
    by simp_all
  note t3 = read_process_info_failure [of example_host 3
      "\<lparr>pid = 3, name = ''unknown'', utime = 7, stime = 3, total_time = 10\<rparr>" "''init''"]
  note t1 = read_process_info_failure [of example_host 1
      "\<lparr>pid = 1, name = ''init'', utime = 7, stime = 3, total_time = 10\<rparr>" "''init''"]
  note t2 = read_process_info_failure [of example_host 2
      "\<lparr>pid = 1, name = ''init'', utime = 7, stime = 3, total_time = 10\<rparr>" "''init''"]
  note n3 = t3 [THEN conjunct2, THEN conjunct1, THEN mp, THEN mp, OF example_read_3 c3]
  note n1 = t1 [THEN conjunct2, THEN conjunct2, THEN mp, THEN mp, THEN mp, THEN mp,
      OF example_read_1 c1 nl len]
  note f2 = t2 [THEN conjunct1]
  show ?thesis
    using example_read_3 c3 n3 example_read_1 c1 nl len n1 f2 by (intro conjI)
qed

section \<open>CPU utilisation\<close>

lemma get_cpu_stats_derived:
  assumes "get_cpu_stats fp = Some s"
  shows "active s = user s + nice s + system s + irq s + softirq s"
    and "total s = active s + idle s + iowait s + steal s"
proof -
  obtain content where fp: "fp = Some content"
    using assms by (cases fp) (simp_all add: get_cpu_stats_def)
  obtain n vals where sc: "fscanf cpu_format content = (n, vals)"
    by (cases "fscanf cpu_format content") auto
  have n: "\<not> n < 8"
    using assms fp sc by (auto simp: get_cpu_stats_def split: if_splits)
  then obtain u ni sy i w q sq st where vals: "vals = [u, ni, sy, i, w, q, sq, st]"
    using assms fp sc by (auto simp: get_cpu_stats_def split: if_splits list.splits)
  have "s = \<lparr>user = u, nice = ni, system = sy, idle = i, iowait = w, irq = q, softirq = sq,
             steal = st, total = u + ni + sy + q + sq + i + w + st,
             active = u + ni + sy + q + sq\<rparr>"
    using assms fp sc n vals by (simp add: get_cpu_stats_def Let_def)
  then show "active s = user s + nice s + system s + irq s + softirq s"
    and "total s = active s + idle s + iowait s + steal s"
    by simp_all
qed

lemma unat_sum2: "unat (a :: u64) + unat b < 2 ^ 64 \<Longrightarrow> unat (a + b) = unat a + unat b"
  by (simp add: unat_add_lem [THEN iffD1])

lemma no_wrap_sums:
  assumes "active s = user s + nice s + system s + irq s + softirq s"
    and "total s = active s + idle s + iowait s + steal s"
    and "no_wrap s"
  shows "unat (active s)
           = unat (user s) + unat (nice s) + unat (system s) + unat (irq s) + unat (softirq s)"
    and "unat (total s) = counter_sum s"
proof -
  have b: "counter_sum s < 2 ^ 64" using assms(3) by (simp add: no_wrap_def)
  have 1: "unat (user s + nice s) = unat (user s) + unat (nice s)"
    using b by (intro unat_sum2) (simp add: counter_sum_def)
  have 2: "unat (user s + nice s + system s) = unat (user s) + unat (nice s) + unat (system s)"
    using b 1 unat_sum2 [of "user s + nice s" "system s"] by (simp add: counter_sum_def)
  have 3: "unat (user s + nice s + system s + irq s)
      = unat (user s) + unat (nice s) + unat (system s) + unat (irq s)"
    using b 2 unat_sum2 [of "user s + nice s + system s" "irq s"] by (simp add: counter_sum_def)
  have 4: "unat (user s + nice s + system s + irq s + softirq s)
      = unat (user s) + unat (nice s) + unat (system s) + unat (irq s) + unat (softirq s)"
    using b 3 unat_sum2 [of "user s + nice s + system s + irq s" "softirq s"]
    by (simp add: counter_sum_def)
  show a: "unat (active s)
           = unat (user s) + unat (nice s) + unat (system s) + unat (irq s) + unat (softirq s)"
    using 4 assms(1) by simp
  have 5: "unat (active s + idle s) = unat (active s) + unat (idle s)"
    using b a unat_sum2 [of "active s" "idle s"] by (simp add: counter_sum_def)
  have 6: "unat (active s + idle s + iowait s) = unat (active s) + unat (idle s) + unat (iowait s)"
    using b a 5 unat_sum2 [of "active s + idle s" "iowait s"] by (simp add: counter_sum_def)
  have 7: "unat (active s + idle s + iowait s + steal s)
      = unat (active s) + unat (idle s) + unat (iowait s) + unat (steal s)"
    using b a 6 unat_sum2 [of "active s + idle s + iowait s" "steal s"]
    by (simp add: counter_sum_def)
  show "unat (total s) = counter_sum s"
    using 7 a assms(2) by (simp add: counter_sum_def)
qed

lemma counters_le_nat:
  assumes "counters_le prev cur"
  shows "unat (user prev) \<le> unat (user cur)" "unat (nice prev) \<le> unat (nice cur)"
    "unat (system prev) \<le> unat (system cur)" "unat (idle prev) \<le> unat (idle cur)"
    "unat (iowait prev) \<le> unat (iowait cur)" "unat (irq prev) \<le> unat (irq cur)"
    "unat (softirq prev) \<le> unat (softirq cur)" "unat (steal prev) \<le> unat (steal cur)"
  using assms by (simp_all add: counters_le_def word_le_nat_alt)

lemma counters_le_sum: "counters_le prev cur \<Longrightarrow> counter_sum prev \<le> counter_sum cur"
  using counters_le_nat [of prev cur] by (simp add: counter_sum_def)


lemma delta_nat:
  assumes "get_cpu_stats fp1 = Some prev" and "get_cpu_stats fp2 = Some cur"
    and "counters_le prev cur" and "no_wrap cur"
  shows "unat (active cur - active prev) + unat (idle cur - idle prev)
           + unat (iowait cur - iowait prev) + unat (steal cur - steal prev)
         = unat (total cur - total prev)"
    and "unat (total cur - total prev) = counter_sum cur - counter_sum prev"
    and "unat (idle cur - idle prev) = unat (idle cur) - unat (idle prev)"
    and "unat (iowait cur - iowait prev) = unat (iowait cur) - unat (iowait prev)"
    and "unat (steal cur - steal prev) = unat (steal cur) - unat (steal prev)"
    and "unat (active cur - active prev) = unat (active cur) - unat (active prev)"
proof -
  note dp = get_cpu_stats_derived [OF assms(1)]
  note dc = get_cpu_stats_derived [OF assms(2)]
  note le = counters_le_nat [OF assms(3)]
  have nwp: "no_wrap prev"
    using counters_le_sum [OF assms(3)] assms(4) by (simp add: no_wrap_def)
  note sp = no_wrap_sums [OF dp nwp]
  note sc = no_wrap_sums [OF dc assms(4)]
  have ale: "unat (active prev) \<le> unat (active cur)"
    using sp(1) sc(1) le by simp
  have tle: "unat (total prev) \<le> unat (total cur)"
    using sp(2) sc(2) counters_le_sum [OF assms(3)] by simp
  show i: "unat (idle cur - idle prev) = unat (idle cur) - unat (idle prev)"
    using le(4) by (simp add: unat_sub word_le_nat_alt)
  show w: "unat (iowait cur - iowait prev) = unat (iowait cur) - unat (iowait prev)"
    using le(5) by (simp add: unat_sub word_le_nat_alt)
  show s: "unat (steal cur - steal prev) = unat (steal cur) - unat (steal prev)"
    using le(8) by (simp add: unat_sub word_le_nat_alt)
  show a: "unat (active cur - active prev) = unat (active cur) - unat (active prev)"
    using ale by (simp add: unat_sub word_le_nat_alt)
  show t: "unat (total cur - total prev) = counter_sum cur - counter_sum prev"
    using tle sp(2) sc(2) by (simp add: unat_sub word_le_nat_alt)
  show "unat (active cur - active prev) + unat (idle cur - idle prev)
           + unat (iowait cur - iowait prev) + unat (steal cur - steal prev)
         = unat (total cur - total prev)"
    unfolding i w s a t using sp(1) sc(1) le by (simp add: counter_sum_def)
qed

lemma sample_first:
  "get_cpu_stats (Some ''cpu  4705 356 584 3699 23 23 0 0 0 0'') =
     Some \<lparr>user = 4705, nice = 356, system = 584, idle = 3699, iowait = 23, irq = 23,
           softirq = 0, steal = 0, total = 9390, active = 5668\<rparr>"
  by (simp add: get_cpu_stats_def scan_eval)

lemma sample_second:
  "get_cpu_stats (Some ''cpu  4805 356 604 4499 43 23 0 40 0 0'') =
     Some \<lparr>user = 4805, nice = 356, system = 604, idle = 4499, iowait = 43, irq = 23,
           softirq = 0, steal = 40, total = 10370, active = 5788\<rparr>"
  by (simp add: get_cpu_stats_def scan_eval)

lemma rounded_refl: "rounded x x"
  by (simp add: rounded_def)


lemma rounded_bounds:
  assumes "rounded x y" and "0 \<le> x"
  shows "x * (1 - 1 / 2 ^ 53) \<le> y" and "y \<le> x * (1 + 1 / 2 ^ 53)"
proof -
  have "\<bar>y - x\<bar> \<le> x / 2 ^ 53"
    using assms by (simp add: rounded_def)
  then have "y - x \<le> x / 2 ^ 53" "x - y \<le> x / 2 ^ 53"
    by linarith+
  then show "x * (1 - 1 / 2 ^ 53) \<le> y" and "y \<le> x * (1 + 1 / 2 ^ 53)"
    by (simp_all add: algebra_simps)
qed


lemma double_percent_exact: "double_percent delta td (exact_percent delta td)"
  unfolding double_percent_def exact_percent_def
  using rounded_refl by blast

lemma double_percent_bounds:
  assumes dp: "double_percent delta td p" and nz: "td \<noteq> 0"
  shows "exact_percent delta td * round_low \<le> p"
    and "p \<le> exact_percent delta td * round_high"
    and "0 \<le> p"
proof -
  define u :: real where "u = 1 / 2 ^ 53"
  have u: "0 < u" "u < 1" by (simp_all add: u_def)
  define A where "A = real (unat delta)"
  define B where "B = real (unat td)"
  have A: "0 \<le> A" by (simp only: A_def of_nat_0_le_iff)
  have "0 < unat td" using nz by (simp add: unat_gt_0)
  then have B: "0 < B" by (simp only: B_def of_nat_0_less_iff)
  obtain a b q where ra: "rounded A a" and rb: "rounded B b" and rq: "rounded (a / b) q"
    and rp: "rounded (q * 100) p"
    using dp by (auto simp: double_percent_def A_def B_def)
  have a: "A * (1 - u) \<le> a" "a \<le> A * (1 + u)"
    using rounded_bounds [OF ra A] by (simp_all add: u_def)
  have b: "B * (1 - u) \<le> b" "b \<le> B * (1 + u)"
    using rounded_bounds [OF rb] B by (simp_all add: u_def)
  have bl: "0 < B * (1 - u)" using B u by simp
  then have b0: "0 < b" using b(1) by linarith
  have a0: "0 \<le> a"
  proof -
    have "0 \<le> A * (1 - u)" using A u by (intro mult_nonneg_nonneg) simp_all
    then show ?thesis using a(1) by linarith
  qed
  have c0: "0 \<le> a / b" using a0 b0 by simp
  have cu: "a / b \<le> A * (1 + u) / (B * (1 - u))"
    using a0 a(2) bl b(1) by (intro frac_le) simp_all
  have cl: "A * (1 - u) / (B * (1 + u)) \<le> a / b"
  proof (rule frac_le)
    show "0 \<le> a" by (rule a0)
    show "A * (1 - u) \<le> a" by (rule a(1))
    show "0 < b" by (rule b0)
    show "b \<le> B * (1 + u)" by (rule b(2))
  qed
  have q: "a / b * (1 - u) \<le> q" "q \<le> a / b * (1 + u)"
    using rounded_bounds [OF rq c0] by (simp_all add: u_def)
  have q0: "0 \<le> q"
  proof -
    have "0 \<le> a / b * (1 - u)" using c0 u by (intro mult_nonneg_nonneg) simp_all
    then show ?thesis using q(1) by linarith
  qed
  have p: "q * 100 * (1 - u) \<le> p" "p \<le> q * 100 * (1 + u)"
    using rounded_bounds [OF rp] q0 by (simp_all add: u_def)
  show "0 \<le> p"
  proof -
    have "0 \<le> q * 100 * (1 - u)" using q0 u by (intro mult_nonneg_nonneg) simp_all
    then show ?thesis using p(1) by linarith
  qed
  have "p \<le> q * 100 * (1 + u)" by (rule p(2))
  also have "\<dots> \<le> (a / b * (1 + u)) * 100 * (1 + u)"
    using q(2) u by (intro mult_right_mono) simp_all
  also have "\<dots> \<le> (A * (1 + u) / (B * (1 - u)) * (1 + u)) * 100 * (1 + u)"
    using cu u by (intro mult_right_mono) simp_all
  also have "\<dots> = A / B * 100 * ((1 + u) ^ 3 / (1 - u))"
    by (simp add: power3_eq_cube)
  finally show "p \<le> exact_percent delta td * round_high"
    by (simp add: exact_percent_def round_high_def A_def B_def u_def)
  have "A / B * 100 * ((1 - u) ^ 3 / (1 + u))
      = (A * (1 - u) / (B * (1 + u)) * (1 - u)) * 100 * (1 - u)"
    by (simp add: power3_eq_cube)
  also have "\<dots> \<le> (a / b * (1 - u)) * 100 * (1 - u)"
    using cl u by (intro mult_right_mono) simp_all
  also have "\<dots> \<le> q * 100 * (1 - u)"
    using q(1) u by (intro mult_right_mono) simp_all
  also have "\<dots> \<le> p" by (rule p(1))
  finally show "exact_percent delta td * round_low \<le> p"
    by (simp add: exact_percent_def round_low_def A_def B_def u_def)
qed

lemma round_high_bound: "round_high \<le> 1 + 1 / 10 ^ 15"
  by (simp add: round_high_def field_simps)

lemma round_low_bound: "1 - 1 / 10 ^ 15 \<le> round_low"
  by (simp add: round_low_def field_simps)




text \<open>
  Claim C3. For two samples with no counter decreasing, sums that have not wrapped
  around, and a larger total in the later one: in exact arithmetic the four percentages
  are not negative and add up to exactly 100; the four doubles the run computes are not
  negative and add up to 100 within \<open>1 / 10 ^ 13\<close>; and the run does print percentages.
\<close>

theorem percentages_sum_to_100:
  assumes "get_cpu_stats fp1 = Some prev" and "get_cpu_stats fp2 = Some cur"
    and "counters_le prev cur" and "no_wrap cur" and "total prev < total cur"
    and "cpu_usage fp1 fp2 (Some r)"
  shows "exact_percent (active cur - active prev) (total_delta prev cur)
           + exact_percent (idle cur - idle prev) (total_delta prev cur)
           + exact_percent (iowait cur - iowait prev) (total_delta prev cur)
           + exact_percent (steal cur - steal prev) (total_delta prev cur) = 100
       \<and> 0 \<le> exact_percent (active cur - active prev) (total_delta prev cur)
       \<and> 0 \<le> exact_percent (idle cur - idle prev) (total_delta prev cur)
       \<and> 0 \<le> exact_percent (iowait cur - iowait prev) (total_delta prev cur)
       \<and> 0 \<le> exact_percent (steal cur - steal prev) (total_delta prev cur)
       \<and> 0 \<le> usage_percent r \<and> 0 \<le> idle_percent r \<and> 0 \<le> iowait_percent r
       \<and> 0 \<le> steal_percent r
       \<and> \<bar>usage_percent r + idle_percent r + iowait_percent r + steal_percent r - 100\<bar>
            \<le> 1 / 10 ^ 13
       \<and> (\<exists>u. cpu_usage fp1 fp2 (Some u)) \<and> \<not> cpu_usage fp1 fp2 None"
proof -
  note d = delta_nat [OF assms(1-4)]
  define td where "td = total_delta prev cur"
  define xa where "xa = exact_percent (active cur - active prev) td"
  define xi where "xi = exact_percent (idle cur - idle prev) td"
  define xw where "xw = exact_percent (iowait cur - iowait prev) td"
  define xs where "xs = exact_percent (steal cur - steal prev) td"
  have ne: "total cur - total prev \<noteq> 0" using assms(5) by simp
  then have tdv: "td = total cur - total prev"
    by (simp add: td_def total_delta_def Let_def)
  have tnz: "td \<noteq> 0" using ne tdv by simp
  define a where "a = unat (active cur - active prev)"
  define i where "i = unat (idle cur - idle prev)"
  define w where "w = unat (iowait cur - iowait prev)"
  define s where "s = unat (steal cur - steal prev)"
  define t where "t = unat td"
  have sum: "a + i + w + s = t"
    using d(1) by (simp add: a_def i_def w_def s_def t_def tdv)
  have pos: "0 < t"
    using tnz by (simp add: t_def unat_gt_0)
  have x: "xa = real a / real t * 100" "xi = real i / real t * 100"
    "xw = real w / real t * 100" "xs = real s / real t * 100"
    by (simp_all only: xa_def xi_def xw_def xs_def exact_percent_def a_def i_def w_def s_def
        t_def)
  have "xa + xi + xw + xs = (real a + real i + real w + real s) / real t * 100"
    unfolding x by (simp add: add_divide_distrib ring_distribs)
  also have "\<dots> = real t / real t * 100"
    using sum by (metis of_nat_add)
  also have "\<dots> = 100"
    using pos by simp
  finally have hundred: "xa + xi + xw + xs = 100" .
  have x0: "0 \<le> xa" "0 \<le> xi" "0 \<le> xw" "0 \<le> xs"
    unfolding x by simp_all
  have p: "percentages prev cur r"
    using assms(1,2,6) by (simp add: cpu_usage_def)
  then have dp: "double_percent (active cur - active prev) td (usage_percent r)"
    "double_percent (idle cur - idle prev) td (idle_percent r)"
    "double_percent (iowait cur - iowait prev) td (iowait_percent r)"
    "double_percent (steal cur - steal prev) td (steal_percent r)"
    by (simp_all add: percentages_def Let_def td_def)
  note ba = double_percent_bounds [OF dp(1) tnz, folded xa_def]
  note bi = double_percent_bounds [OF dp(2) tnz, folded xi_def]
  note bw = double_percent_bounds [OF dp(3) tnz, folded xw_def]
  note bs = double_percent_bounds [OF dp(4) tnz, folded xs_def]
  define total_r where
    "total_r = usage_percent r + idle_percent r + iowait_percent r + steal_percent r"
  have "total_r \<le> xa * round_high + xi * round_high + xw * round_high + xs * round_high"
    unfolding total_r_def using ba(2) bi(2) bw(2) bs(2) by linarith
  also have "\<dots> = 100 * round_high"
    using hundred by (simp add: distrib_right [symmetric])
  also have "\<dots> \<le> 100 * (1 + 1 / 10 ^ 15)"
    using round_high_bound by simp
  finally have hi: "total_r \<le> 100 + 1 / 10 ^ 13" by simp
  have "100 * (1 - 1 / 10 ^ 15) \<le> 100 * round_low"
    using round_low_bound by simp
  also have "\<dots> = xa * round_low + xi * round_low + xw * round_low + xs * round_low"
    using hundred by (simp add: distrib_right [symmetric])
  also have "\<dots> \<le> total_r"
    unfolding total_r_def using ba(1) bi(1) bw(1) bs(1) by linarith
  finally have lo: "100 - 1 / 10 ^ 13 \<le> total_r" by simp
  have close: "\<bar>total_r - 100\<bar> \<le> 1 / 10 ^ 13"
    using hi lo by linarith
  have "percentages prev cur
      \<lparr>usage_percent = xa, idle_percent = xi, iowait_percent = xw, steal_percent = xs\<rparr>"
    by (simp add: percentages_def Let_def double_percent_exact xa_def xi_def xw_def xs_def
        td_def)
  then have "cpu_usage fp1 fp2
      (Some \<lparr>usage_percent = xa, idle_percent = xi, iowait_percent = xw, steal_percent = xs\<rparr>)"
    using assms(1,2) by (simp add: cpu_usage_def)
  then have ex: "\<exists>u. cpu_usage fp1 fp2 (Some u)" by blast
  have none: "\<not> cpu_usage fp1 fp2 None"
    using assms(1,2) by (simp add: cpu_usage_def)
  have main: "xa + xi + xw + xs = 100 \<and> 0 \<le> xa \<and> 0 \<le> xi \<and> 0 \<le> xw \<and> 0 \<le> xs
      \<and> 0 \<le> usage_percent r \<and> 0 \<le> idle_percent r \<and> 0 \<le> iowait_percent r
      \<and> 0 \<le> steal_percent r \<and> \<bar>total_r - 100\<bar> \<le> 1 / 10 ^ 13"
    using hundred x0 ba(3) bi(3) bw(3) bs(3) close by simp
  show ?thesis
    using main ex none
    by (simp add: xa_def xi_def xw_def xs_def td_def total_r_def)
qed


lemma sample_percentages:
  "percentages
     \<lparr>user = 4705, nice = 356, system = 584, idle = 3699, iowait = 23, irq = 23,
        softirq = 0, steal = 0, total = 9390, active = 5668\<rparr>
     \<lparr>user = 4805, nice = 356, system = 604, idle = 4499, iowait = 43, irq = 23,
        softirq = 0, steal = 40, total = 10370, active = 5788\<rparr>
     \<lparr>usage_percent = exact_percent 120 980, idle_percent = exact_percent 800 980,
        iowait_percent = exact_percent 20 980, steal_percent = exact_percent 40 980\<rparr>"
  by (simp add: percentages_def total_delta_def double_percent_exact)

theorem percentages_sum_to_100_witness:
  "get_cpu_stats (Some ''cpu  4705 356 584 3699 23 23 0 0 0 0'') =
     Some \<lparr>user = 4705, nice = 356, system = 584, idle = 3699, iowait = 23, irq = 23,
           softirq = 0, steal = 0, total = 9390, active = 5668\<rparr>
   \<and> get_cpu_stats (Some ''cpu  4805 356 604 4499 43 23 0 40 0 0'') =
     Some \<lparr>user = 4805, nice = 356, system = 604, idle = 4499, iowait = 43, irq = 23,
           softirq = 0, steal = 40, total = 10370, active = 5788\<rparr>
   \<and> counters_le
        \<lparr>user = 4705, nice = 356, system = 584, idle = 3699, iowait = 23, irq = 23,
           softirq = 0, steal = 0, total = 9390, active = 5668\<rparr>
        \<lparr>user = 4805, nice = 356, system = 604, idle = 4499, iowait = 43, irq = 23,
           softirq = 0, steal = 40, total = 10370, active = 5788\<rparr>
   \<and> no_wrap \<lparr>user = 4805, nice = 356, system = 604, idle = 4499, iowait = 43, irq = 23,
           softirq = 0, steal = 40, total = 10370, active = 5788\<rparr>
   \<and> (9390 :: u64) < 10370
   \<and> cpu_usage (Some ''cpu  4705 356 584 3699 23 23 0 0 0 0'')
        (Some ''cpu  4805 356 604 4499 43 23 0 40 0 0'')
        (Some \<lparr>usage_percent = exact_percent 120 980, idle_percent = exact_percent 800 980,
           iowait_percent = exact_percent 20 980, steal_percent = exact_percent 40 980\<rparr>)
   \<and> \<bar>usage_percent
          \<lparr>usage_percent = exact_percent 120 980, idle_percent = exact_percent 800 980,
           iowait_percent = exact_percent 20 980, steal_percent = exact_percent 40 980\<rparr>
        + idle_percent
          \<lparr>usage_percent = exact_percent 120 980, idle_percent = exact_percent 800 980,
           iowait_percent = exact_percent 20 980, steal_percent = exact_percent 40 980\<rparr>
        + iowait_percent
          \<lparr>usage_percent = exact_percent 120 980, idle_percent = exact_percent 800 980,
           iowait_percent = exact_percent 20 980, steal_percent = exact_percent 40 980\<rparr>
        + steal_percent
          \<lparr>usage_percent = exact_percent 120 980, idle_percent = exact_percent 800 980,
           iowait_percent = exact_percent 20 980, steal_percent = exact_percent 40 980\<rparr>
        - 100\<bar> \<le> 1 / 10 ^ 13"
proof -
  let ?p = "\<lparr>user = 4705, nice = 356, system = 584, idle = 3699, iowait = 23, irq = 23,
           softirq = 0, steal = 0, total = 9390, active = (5668 :: u64)\<rparr>"
  let ?c = "\<lparr>user = 4805, nice = 356, system = 604, idle = 4499, iowait = 43, irq = 23,
           softirq = 0, steal = 40, total = 10370, active = (5788 :: u64)\<rparr>"
  let ?r = "\<lparr>usage_percent = exact_percent 120 980, idle_percent = exact_percent 800 980,
           iowait_percent = exact_percent 20 980, steal_percent = exact_percent 40 980\<rparr>"
  have le: "counters_le ?p ?c" by (simp add: counters_le_def word_le_nat_alt)
  have nw: "no_wrap ?c" by (simp add: no_wrap_def counter_sum_def)
  have lt: "(9390 :: u64) < 10370" by (simp add: word_less_nat_alt)
  have gt: "total ?p < total ?c" using lt by simp
  have run: "cpu_usage (Some ''cpu  4705 356 584 3699 23 23 0 0 0 0'')
        (Some ''cpu  4805 356 604 4499 43 23 0 40 0 0'') (Some ?r)"
    using sample_percentages by (simp add: cpu_usage_def sample_first sample_second)
  note t = percentages_sum_to_100 [OF sample_first sample_second le nw gt run]
  note close = t [THEN conjunct2, THEN conjunct2, THEN conjunct2, THEN conjunct2,
      THEN conjunct2, THEN conjunct2, THEN conjunct2, THEN conjunct2, THEN conjunct2,
      THEN conjunct1]
  show ?thesis
    using sample_first sample_second le nw lt run close by (intro conjI)
qed

section \<open>Reading the aggregate counters\<close>

lemma isdigit_not_space: "isdigit c \<Longrightarrow> \<not> isspace c"
  unfolding isdigit_iff by (auto simp: isspace_def)

lemma isdigit_not_sign: "isdigit c \<Longrightarrow> c \<noteq> CHR ''-'' \<and> c \<noteq> CHR ''+''"
  unfolding isdigit_iff by auto

lemma dropWhile_stop: "x = [] \<or> \<not> P (hd x) \<Longrightarrow> dropWhile P x = x"
  by (cases x) auto

lemma takeWhile_stop: "x = [] \<or> \<not> P (hd x) \<Longrightarrow> takeWhile P x = []"
  by (cases x) auto

lemma skip_space_white:
  "list_all isspace sp \<Longrightarrow> x = [] \<or> \<not> isspace (hd x) \<Longrightarrow> skip_space (sp @ x) = x"
  by (simp add: skip_space_def dropWhile_append dropWhile_stop list_all_iff)

lemma scan_integer_digits:
  assumes "f \<noteq> []" and "list_all isdigit f" and "x = [] \<or> \<not> isdigit (hd x)"
  shows "scan_integer (f @ x) = Some (False, f, x)"
proof -
  obtain c cs where f: "f = c # cs" using assms(1) by (cases f) auto
  then have "isdigit c" using assms(2) by simp
  then have "scan_sign (f @ x) = (False, f @ x)"
    using f isdigit_not_sign [of c] by (simp add: scan_sign_def)
  moreover have "takeWhile isdigit (f @ x) = f" "dropWhile isdigit (f @ x) = x"
    using assms(2,3)
    by (simp_all add: takeWhile_append dropWhile_append takeWhile_stop dropWhile_stop
        list_all_iff)
  ultimately show ?thesis
    using assms(1) by (simp add: scan_integer_def scan_digits_def)
qed

lemma conv_field:
  assumes "numeric_field (sp, f)" and "x = [] \<or> \<not> isdigit (hd x)"
  shows "directive_step Conv_llu (f @ x) = Inr (x, [field_value (sp, f)])"
    and "skip_space (sp @ f @ x) = f @ x"
proof -
  have f: "f \<noteq> []" "list_all isdigit f" "digits_val f \<le> 18446744073709551615"
    and sp: "list_all isspace sp"
    using assms(1) by (simp_all add: numeric_field_def)
  obtain c cs where fc: "f = c # cs" using f(1) by (cases f) auto
  then have "\<not> isspace (hd (f @ x))"
    using f(2) isdigit_not_space [of c] by simp
  then have nsp: "f @ x = [] \<or> \<not> isspace (hd (f @ x))" by simp
  show "skip_space (sp @ f @ x) = f @ x"
    using sp nsp by (rule skip_space_white)
  have "skip_space (f @ x) = f @ x"
    using skip_space_white [of "[]" "f @ x"] nsp by simp
  moreover have "conv_llu False f = field_value (sp, f)"
    using f(3) by (simp add: conv_llu_def store_llu_def field_value_def)
  ultimately show "directive_step Conv_llu (f @ x) = Inr (x, [field_value (sp, f)])"
    using f(1) scan_integer_digits [OF f(1,2) assms(2)] by (simp add: match_integer_def)
qed

lemma field_text_Cons: "field_text ((sp, f) # items) = sp @ f @ field_text items"
  by (simp add: field_text_def)

lemma field_text_start:
  assumes "list_all numeric_field items" and "x = [] \<or> \<not> isdigit (hd x)"
  shows "field_text items @ x = [] \<or> \<not> isdigit (hd (field_text items @ x))"
proof (cases items)
  case Nil
  then show ?thesis using assms(2) by (simp add: field_text_def)
next
  case (Cons item rest)
  obtain sp f where item: "item = (sp, f)" by (cases item)
  then have "sp \<noteq> []" "list_all isspace sp"
    using assms(1) Cons by (simp_all add: numeric_field_def)
  then obtain c cs where "sp = c # cs" "isspace c" by (cases sp) auto
  then show ?thesis
    using Cons item isdigit_not_space [of c] by (auto simp: field_text_Cons)
qed

lemma run_fields:
  assumes "list_all numeric_field items" and "x = [] \<or> \<not> isdigit (hd x)"
  shows "run_format (concat (map (\<lambda>item. [Space, Conv_llu]) items) @ ds)
           (field_text items @ x) acc
         = run_format ds x (acc @ map field_value items)"
  using assms
proof (induction items arbitrary: acc)
  case Nil
  show ?case by (simp add: field_text_def)
next
  case (Cons item rest)
  obtain sp f where item: "item = (sp, f)" by (cases item)
  have nf: "numeric_field (sp, f)" and rest: "list_all numeric_field rest"
    using Cons.prems(1) item by simp_all
  define y where "y = field_text rest @ x"
  have y: "y = [] \<or> \<not> isdigit (hd y)"
    unfolding y_def using rest Cons.prems(2) by (rule field_text_start)
  note cf = conv_field [OF nf y]
  have "run_format (concat (map (\<lambda>item. [Space, Conv_llu]) (item # rest)) @ ds)
           (field_text (item # rest) @ x) acc
        = run_format (concat (map (\<lambda>item. [Space, Conv_llu]) rest) @ ds) y
            (acc @ [field_value (sp, f)])"
    using cf by (simp add: item field_text_Cons y_def)
  also have "\<dots> = run_format ds x ((acc @ [field_value (sp, f)]) @ map field_value rest)"
    unfolding y_def using rest Cons.prems(2) by (rule Cons.IH)
  finally show ?case by (simp add: item)
qed

lemma skip_label:
  assumes "label_token l" and "x = [] \<or> isspace (hd x)"
  shows "directive_step Skip_s (l @ x) = Inr (x, [])"
proof -
  have l: "l \<noteq> []" "list_all (\<lambda>c. \<not> isspace c) l"
    using assms(1) by (simp_all add: label_token_def)
  then obtain c cs where lc: "l = c # cs" "\<not> isspace c" by (cases l) auto
  have "skip_space (l @ x) = l @ x"
    using lc by (simp add: skip_space_def)
  moreover have "dropWhile (\<lambda>c. \<not> isspace c) (l @ x) = x"
    using l(2) assms(2) by (simp add: dropWhile_append dropWhile_stop list_all_iff)
  ultimately show ?thesis
    using l(1) by (simp add: match_string_def)
qed

lemma field_text_space:
  assumes "list_all numeric_field items" and "items \<noteq> []"
  shows "isspace (hd (field_text items @ x))"
proof -
  obtain item rest where items: "items = item # rest" using assms(2) by (cases items) auto
  obtain sp f where item: "item = (sp, f)" by (cases item)
  then have "sp \<noteq> []" "list_all isspace sp"
    using assms(1) items by (simp_all add: numeric_field_def)
  then obtain c cs where "sp = c # cs" "isspace c" by (cases sp) auto
  then show ?thesis using items item by (simp add: field_text_Cons)
qed

lemma field_directives:
  "concat (map (\<lambda>item. [Space, Conv_llu]) items)
     = concat (replicate (length items) [Space, Conv_llu])"
  by (simp add: map_replicate_const)

lemma cpu_format_fields: "cpu_format = Skip_s # concat (replicate 8 [Space, Conv_llu])"
  by (simp add: cpu_format_def eval_nat_numeral)

lemma cpu_format_split:
  assumes "k < 8"
  shows "cpu_format = Skip_s # concat (replicate k [Space, Conv_llu])
           @ Space # Conv_llu # concat (replicate (7 - k) [Space, Conv_llu])"
proof -
  have "8 = k + Suc (7 - k)" using assms by simp
  then have "replicate 8 [Space, Conv_llu]
      = replicate k [Space, Conv_llu] @ replicate (Suc (7 - k)) [Space, Conv_llu]"
    using replicate_add [of k "Suc (7 - k)" "[Space, Conv_llu]"] by simp
  then show ?thesis
    unfolding cpu_format_fields by simp
qed

lemma get_cpu_stats_fields:
  assumes "label_token l" and "list_all numeric_field items" and "length items = 8"
    and "rest = [] \<or> \<not> isdigit (hd rest)"
    and "map field_value items = [u, n, s, i, w, q, sq, st]"
  shows "get_cpu_stats (Some (l @ field_text items @ rest)) =
           Some \<lparr>user = u, nice = n, system = s, idle = i, iowait = w, irq = q,
                 softirq = sq, steal = st,
                 total = u + n + s + q + sq + i + w + st, active = u + n + s + q + sq\<rparr>"
proof -
  have ne: "items \<noteq> []" using assms(3) by auto
  have "field_text items @ rest = [] \<or> isspace (hd (field_text items @ rest))"
    using field_text_space [OF assms(2) ne, of rest] by simp
  with assms(1) have lab: "directive_step Skip_s (l @ field_text items @ rest)
      = Inr (field_text items @ rest, [])"
    by (rule skip_label)
  have "run_format cpu_format (l @ field_text items @ rest) []
      = run_format (concat (map (\<lambda>item. [Space, Conv_llu]) items) @ [])
          (field_text items @ rest) []"
    using lab by (simp add: cpu_format_fields field_directives assms(3))
  also have "\<dots> = run_format [] rest ([] @ map field_value items)"
    using assms(2,4) by (rule run_fields)
  finally have "run_format cpu_format (l @ field_text items @ rest) []
      = (Complete, [u, n, s, i, w, q, sq, st])"
    using assms(5) by simp
  then show ?thesis
    by (simp add: get_cpu_stats_def fscanf_def Let_def)
qed

lemma no_number:
  assumes "junk = [] \<or> (\<not> isspace (hd junk) \<and> \<not> isdigit (hd junk)
      \<and> hd junk \<noteq> CHR ''-'' \<and> hd junk \<noteq> CHR ''+'')"
  shows "\<exists>st. directive_step Conv_llu junk = Inl st"
proof (cases junk)
  case Nil
  then show ?thesis by (simp add: skip_space_def match_integer_def)
next
  case (Cons c cs)
  then have c: "\<not> isspace c" "\<not> isdigit c" "c \<noteq> CHR ''-''" "c \<noteq> CHR ''+''"
    using assms by simp_all
  then have "skip_space junk = junk"
    using Cons by (simp add: skip_space_def)
  moreover have "scan_integer junk = None"
    using Cons c by (simp add: scan_integer_def scan_sign_def scan_digits_def)
  ultimately show ?thesis
    using Cons by (simp add: match_integer_def)
qed

lemma get_cpu_stats_short:
  assumes "label_token l" and "list_all numeric_field items" and "length items < 8"
    and "list_all isspace ws"
    and "junk = [] \<or> (ws \<noteq> [] \<and> \<not> isspace (hd junk) \<and> \<not> isdigit (hd junk)
      \<and> hd junk \<noteq> CHR ''-'' \<and> hd junk \<noteq> CHR ''+'')"
  shows "get_cpu_stats (Some (l @ field_text items @ ws @ junk)) = None"
proof -
  define x where "x = ws @ junk"
  have ws_space: "ws \<noteq> [] \<Longrightarrow> isspace (hd x)"
    using assms(4) by (cases ws) (simp_all add: x_def)
  have x_nodigit: "x = [] \<or> \<not> isdigit (hd x)"
  proof (cases "ws = []")
    case True
    then show ?thesis using assms(5) by (simp add: x_def)
  next
    case False
    then show ?thesis using ws_space isdigit_not_space [of "hd x"] by blast
  qed
  have x_space: "x = [] \<or> isspace (hd x)"
  proof (cases "ws = []")
    case True
    then show ?thesis using assms(5) by (simp add: x_def)
  next
    case False
    then show ?thesis using ws_space by blast
  qed
  have y_space: "field_text items @ x = [] \<or> isspace (hd (field_text items @ x))"
  proof (cases "items = []")
    case True
    then show ?thesis using x_space by (simp add: field_text_def)
  next
    case False
    then show ?thesis using field_text_space [OF assms(2) False, of x] by simp
  qed
  have lab: "directive_step Skip_s (l @ field_text items @ x) = Inr (field_text items @ x, [])"
    using assms(1) y_space by (rule skip_label)
  have junk_start: "junk = [] \<or> \<not> isspace (hd junk)"
    using assms(5) by blast
  have sp: "directive_step Space x = Inr (junk, [])"
    using skip_space_white [OF assms(4) junk_start] by (simp add: x_def)
  obtain st where fail: "directive_step Conv_llu junk = Inl st"
    using no_number [of junk] assms(5) by blast
  define ds where "ds = Space # Conv_llu # concat (replicate (7 - length items) [Space, Conv_llu])"
  have "run_format cpu_format (l @ field_text items @ x) []
      = run_format (concat (map (\<lambda>item. [Space, Conv_llu]) items) @ ds)
          (field_text items @ x) []"
    using lab by (simp add: cpu_format_split [OF assms(3)] field_directives ds_def)
  also have "\<dots> = run_format ds x ([] @ map field_value items)"
    using assms(2) x_nodigit by (rule run_fields)
  also have "\<dots> = (st, map field_value items)"
    using sp fail by (simp add: ds_def)
  finally have "fst (fscanf cpu_format (l @ field_text items @ x)) < 8"
    using assms(3) by (simp add: fscanf_def)
  moreover obtain cnt vals where "fscanf cpu_format (l @ field_text items @ x) = (cnt, vals)"
    by (cases "fscanf cpu_format (l @ field_text items @ x)") auto
  ultimately show ?thesis
    by (simp add: get_cpu_stats_def x_def)
qed

lemma no_wrap_active_le_total:
  assumes "get_cpu_stats fp = Some s" and "no_wrap s"
  shows "active s \<le> total s"
proof -
  note d = get_cpu_stats_derived [OF assms(1)]
  note n = no_wrap_sums [OF d assms(2)]
  show ?thesis
    unfolding word_le_nat_alt n by (simp add: counter_sum_def)
qed

lemma no_wrap_total_split:
  assumes "get_cpu_stats fp = Some s" and "no_wrap s"
  shows "unat (total s) = unat (active s) + unat (idle s) + unat (iowait s) + unat (steal s)"
proof -
  note d = get_cpu_stats_derived [OF assms(1)]
  note n = no_wrap_sums [OF d assms(2)]
  show ?thesis
    unfolding n by (simp add: counter_sum_def)
qed

text \<open>
  Claim C6. \<open>get_cpu_stats\<close> fails when \<open>/proc/stat\<close> cannot be opened. On a first line
  made of a label and eight numeric fields it returns their values, whatever follows them
  on that line and on the later ones, with \<open>active\<close> and \<open>total\<close> the sums of the claim. On
  a label followed by fewer than eight numeric fields and then the end of the text, or a
  next line that starts with a label as every line of \<open>/proc/stat\<close> does, it fails. In
  every returned sample the two sums hold in the 64-bit arithmetic of the code; for
  counters whose sum stays below \<open>2 ^ 64\<close>, as those of \<open>/proc/stat\<close> do, they hold as sums
  of numbers, and \<open>total\<close> is at least \<open>active\<close>.
\<close>

theorem get_cpu_stats_contract:
  "get_cpu_stats None = None
   \<and> (label_token l \<longrightarrow> list_all numeric_field items \<longrightarrow> length items = 8
        \<longrightarrow> rest = [] \<or> \<not> isdigit (hd rest)
        \<longrightarrow> map field_value items = [u, n, s, i, w, q, sq, st]
        \<longrightarrow> get_cpu_stats (Some (l @ field_text items @ rest)) =
              Some \<lparr>user = u, nice = n, system = s, idle = i, iowait = w, irq = q,
                    softirq = sq, steal = st,
                    total = u + n + s + q + sq + i + w + st, active = u + n + s + q + sq\<rparr>)
   \<and> (label_token l \<longrightarrow> list_all numeric_field short \<longrightarrow> length short < 8
        \<longrightarrow> list_all isspace ws
        \<longrightarrow> junk = [] \<or> (ws \<noteq> [] \<and> \<not> isspace (hd junk) \<and> \<not> isdigit (hd junk)
              \<and> hd junk \<noteq> CHR ''-'' \<and> hd junk \<noteq> CHR ''+'')
        \<longrightarrow> get_cpu_stats (Some (l @ field_text short @ ws @ junk)) = None)
   \<and> (get_cpu_stats fp = Some snap
        \<longrightarrow> active snap = user snap + nice snap + system snap + irq snap + softirq snap
          \<and> total snap = active snap + idle snap + iowait snap + steal snap
          \<and> (no_wrap snap
              \<longrightarrow> unat (active snap) = unat (user snap) + unat (nice snap) + unat (system snap)
                      + unat (irq snap) + unat (softirq snap)
                \<and> unat (total snap) = unat (active snap) + unat (idle snap)
                      + unat (iowait snap) + unat (steal snap)
                \<and> active snap \<le> total snap))"
proof -
  have a: "get_cpu_stats None = None" by (simp add: get_cpu_stats_def)
  have d: "unat (active snap) = unat (user snap) + unat (nice snap) + unat (system snap)
        + unat (irq snap) + unat (softirq snap)"
    if "get_cpu_stats fp = Some snap" and "no_wrap snap"
    using no_wrap_sums(1) [OF get_cpu_stats_derived [OF that(1)] that(2)] .
  show ?thesis
    using a get_cpu_stats_fields [of l items rest u n s i w q sq st]
      get_cpu_stats_short [of l short ws junk]
      get_cpu_stats_derived [of fp snap] no_wrap_active_le_total [of fp snap]
      no_wrap_total_split [of fp snap] d
    by (intro conjI impI) simp_all
qed

theorem get_cpu_stats_contract_witness:
  "label_token ''cpu''
   \<and> list_all numeric_field
        [(''  '', ''4705''), ('' '', ''356''), ('' '', ''584''), ('' '', ''3699''),
         ('' '', ''23''), ('' '', ''23''), ('' '', ''0''), ('' '', ''0'')]
   \<and> map field_value
        [(''  '', ''4705''), ('' '', ''356''), ('' '', ''584''), ('' '', ''3699''),
         ('' '', ''23''), ('' '', ''23''), ('' '', ''0''), ('' '', ''0'')]
       = [4705, 356, 584, 3699, 23, 23, 0, 0]
   \<and> get_cpu_stats (Some (''cpu'' @ field_text
        [(''  '', ''4705''), ('' '', ''356''), ('' '', ''584''), ('' '', ''3699''),
         ('' '', ''23''), ('' '', ''23''), ('' '', ''0''), ('' '', ''0'')] @ '' 0 0''))
       = Some \<lparr>user = 4705, nice = 356, system = 584, idle = 3699, iowait = 23, irq = 23,
               softirq = 0, steal = 0,
               total = 4705 + 356 + 584 + 23 + 0 + 3699 + 23 + 0,
               active = 4705 + 356 + 584 + 23 + 0\<rparr>
   \<and> list_all numeric_field [('' '', ''1''), ('' '', ''2''), ('' '', ''3'')]
   \<and> get_cpu_stats (Some (''cpu'' @ field_text [('' '', ''1''), ('' '', ''2''), ('' '', ''3'')]
        @ ''\<newline>'' @ ''intr 5'')) = None
   \<and> get_cpu_stats (Some ''cpu  4705 356 584 3699 23 23 0 0 0 0'') =
       Some \<lparr>user = 4705, nice = 356, system = 584, idle = 3699, iowait = 23, irq = 23,
             softirq = 0, steal = 0, total = 9390, active = 5668\<rparr>
   \<and> no_wrap \<lparr>user = 4705, nice = 356, system = 584, idle = 3699, iowait = 23, irq = 23,
             softirq = 0, steal = 0, total = 9390, active = 5668\<rparr>
   \<and> unat (total \<lparr>user = 4705, nice = 356, system = 584, idle = 3699, iowait = 23,
             irq = 23, softirq = 0, steal = 0, total = 9390, active = 5668 :: u64\<rparr>)
       = unat (active \<lparr>user = 4705, nice = 356, system = 584, idle = 3699, iowait = 23,
             irq = 23, softirq = 0, steal = 0, total = 9390, active = 5668 :: u64\<rparr>)
         + unat (idle \<lparr>user = 4705, nice = 356, system = 584, idle = 3699, iowait = 23,
             irq = 23, softirq = 0, steal = 0, total = 9390, active = 5668 :: u64\<rparr>)
         + unat (iowait \<lparr>user = 4705, nice = 356, system = 584, idle = 3699, iowait = 23,
             irq = 23, softirq = 0, steal = 0, total = 9390, active = 5668 :: u64\<rparr>)
         + unat (steal \<lparr>user = 4705, nice = 356, system = 584, idle = 3699, iowait = 23,
             irq = 23, softirq = 0, steal = 0, total = 9390, active = 5668 :: u64\<rparr>)
   \<and> active \<lparr>user = 4705, nice = 356, system = 584, idle = 3699, iowait = 23, irq = 23,
             softirq = 0, steal = 0, total = 9390, active = 5668 :: u64\<rparr>
       \<le> total \<lparr>user = 4705, nice = 356, system = 584, idle = 3699, iowait = 23, irq = 23,
             softirq = 0, steal = 0, total = 9390, active = 5668 :: u64\<rparr>"
proof -
  let ?items = "[(''  '', ''4705''), ('' '', ''356''), ('' '', ''584''), ('' '', ''3699''),
         ('' '', ''23''), ('' '', ''23''), ('' '', ''0''), ('' '', ''0'')]"
  let ?short = "[('' '', ''1''), ('' '', ''2''), ('' '', ''3'')]"
  let ?snap = "\<lparr>user = 4705, nice = 356, system = 584, idle = 3699, iowait = 23, irq = 23,
             softirq = 0, steal = 0, total = 9390, active = 5668 :: u64\<rparr>"
  have lab: "label_token ''cpu''"
    by (simp add: label_token_def isspace_def)
  have items: "list_all numeric_field ?items"
    by (simp add: numeric_field_def isspace_def isdigit_def digits_val_def)
  have len: "length ?items = 8" by simp
  have rest: "'' 0 0'' = [] \<or> \<not> isdigit (hd '' 0 0'')"
    by (simp add: isdigit_def)
  have vals: "map field_value ?items = [4705, 356, 584, 3699, 23, 23, 0, 0]"
    by (simp add: field_value_def digits_val_def)
  have short: "list_all numeric_field ?short"
    by (simp add: numeric_field_def isspace_def isdigit_def digits_val_def)
  have slen: "length ?short < 8" by simp
  have ws: "list_all isspace ''\<newline>''" by (simp add: isspace_def)
  have junk: "''intr 5'' = [] \<or> (''\<newline>'' \<noteq> [] \<and> \<not> isspace (hd ''intr 5'')
      \<and> \<not> isdigit (hd ''intr 5'') \<and> hd ''intr 5'' \<noteq> CHR ''-'' \<and> hd ''intr 5'' \<noteq> CHR ''+'')"
    by (simp add: isspace_def isdigit_def)
  have nw: "no_wrap ?snap" by (simp add: no_wrap_def counter_sum_def)
  note t = get_cpu_stats_contract [where l = "''cpu''" and items = ?items and rest = "'' 0 0''"
      and u = 4705 and n = 356 and s = 584 and i = 3699 and w = 23 and q = 23 and sq = 0
      and st = 0 and short = ?short and ws = "''\<newline>''" and junk = "''intr 5''"
      and fp = "Some ''cpu  4705 356 584 3699 23 23 0 0 0 0''" and snap = ?snap]
  note ok = t [THEN conjunct2, THEN conjunct1, THEN mp, THEN mp, THEN mp, THEN mp, THEN mp,
      OF lab items len rest vals]
  note fail = t [THEN conjunct2, THEN conjunct2, THEN conjunct1, THEN mp, THEN mp, THEN mp,
      THEN mp, THEN mp, OF lab short slen ws junk]
  note der = t [THEN conjunct2, THEN conjunct2, THEN conjunct2, THEN mp, OF sample_first]
  note nat_sums = der [THEN conjunct2, THEN conjunct2, THEN mp, OF nw]
  note split = nat_sums [THEN conjunct2, THEN conjunct1]
  note le = nat_sums [THEN conjunct2, THEN conjunct2]
  show ?thesis
    using lab items vals ok short fail sample_first nw split le by (intro conjI)
qed

end
